theory Spec2Isabelle
  imports Main "HOL-Library.AList" "HOL-Library.Multiset" "HOL-Library.Word"
begin

section \<open>The keyval parser of honeytail (parsers/keyval/keyval.go)\<close>

text \<open>
  The package turns log lines made of \<open>key=val\<close> pairs into events. This theory embeds
  \<open>Parser.Init\<close>, \<open>KeyValLineParser.ParseLine\<close>, the worker loop of
  \<open>Parser.ProcessLines\<close> and \<open>allEmpty\<close>. Go strings are byte strings, which is what
  \<^typ>\<open>string\<close> is here.
\<close>

subsection \<open>Values, field maps and errors\<close>

text \<open>A Go \<open>error\<close> is carried as its message.\<close>

datatype error = Error string

text \<open>
  A call either returns or panics (a nil interface is called, a type assertion fails).
\<close>

datatype 'a exec = Panics | Returns 'a

text \<open>A \<open>float64\<close> is kept as its IEEE-754 bit pattern; the model never looks inside.\<close>

datatype float64 = Float64 "64 word"

text \<open>
  The dynamic values the line parser stores in a \<open>map[string]interface{}\<close>: a \<open>bool\<close>,
  an \<open>int\<close> (64 bits wide on the targets honeytail is built for), a \<open>float64\<close> or a
  \<open>string\<close>.
\<close>

datatype val = VBool bool | VInt int | VFloat float64 | VString string

text \<open>
  A Go map is an association list with distinct keys: \<open>m[k] = v\<close> is \<^const>\<open>AList.update\<close>,
  \<open>len(m)\<close> is \<^const>\<open>length\<close> and a lookup is \<^const>\<open>map_of\<close>. Go ranges over a map in
  an unspecified order; the results below that depend on a \<open>range\<close> loop are shown not to
  depend on the order of the list.
\<close>

type_synonym fields = "(string \<times> val) list"

subsection \<open>The standard library calls of the value handler\<close>

text \<open>
  \<open>strconv.ParseBool\<close> accepts exactly twelve spellings; \<^const>\<open>None\<close> is its syntax
  error.
\<close>

definition ParseBool :: "string \<Rightarrow> bool option" where
  "ParseBool str =
     (if str \<in> set [''1'', ''t'', ''T'', ''true'', ''TRUE'', ''True''] then Some True
      else if str \<in> set [''0'', ''f'', ''F'', ''false'', ''FALSE'', ''False''] then Some False
      else None)"

definition isDigit :: "char \<Rightarrow> bool" where
  "isDigit c = (48 \<le> (of_char c :: int) \<and> (of_char c :: int) \<le> 57)"

definition digitsValue :: "string \<Rightarrow> int" where
  "digitsValue ds = foldl (\<lambda>n c. 10 * n + (of_char c - 48)) 0 ds"

text \<open>The width of a Go \<open>int\<close> on a 64-bit target.\<close>

definition intSize :: nat where
  "intSize = 64"

text \<open>
  \<open>strconv.Atoi\<close>, that is \<open>ParseInt(s, 10, 0)\<close>: an optional sign, then one or more
  decimal digits and nothing else (a syntax error otherwise); a value outside the range of
  \<open>int\<close> is a range error. Both errors are \<^const>\<open>None\<close>: the handler only tests
  \<open>err == nil\<close>.
\<close>

definition AtoiDigits :: "bool \<Rightarrow> string \<Rightarrow> int option" where
  "AtoiDigits neg ds =
     (if ds = [] \<or> \<not> list_all isDigit ds then None
      else let un = digitsValue ds in
        if \<not> neg \<and> un \<ge> 2 ^ (intSize - 1) then None
        else if neg \<and> un > 2 ^ (intSize - 1) then None
        else Some (if neg then - un else un))"

fun Atoi :: "string \<Rightarrow> int option" where
  "Atoi [] = None"
| "Atoi (c # cs) =
     (if c = CHR ''-'' then AtoiDigits True cs
      else if c = CHR ''+'' then AtoiDigits False cs
      else AtoiDigits False (c # cs))"

subsection \<open>Collaborators that are not part of the package\<close>

text \<open>
  A compiled \<open>*regexp.Regexp\<close>, of which the parser only calls \<open>MatchString\<close>.
\<close>

datatype Regexp = Regexp (MatchString: "string \<Rightarrow> bool")

text \<open>
  A \<open>*parsers.ExtRegexp\<close>, of which the parser only calls \<open>FindStringSubmatchMap\<close>: the
  matched prefix and the named groups, a \<open>map[string]string\<close>.
\<close>

datatype ExtRegexp = ExtRegexp (FindStringSubmatchMap: "string \<Rightarrow> string \<times> (string \<times> string) list")

text \<open>A \<open>time.Time\<close>, read as nanoseconds since the Unix epoch.\<close>

type_synonym Time = int

text \<open>
  The functions the package imports and this theory does not define:
  \<^item> \<open>regexp.Compile\<close>;
  \<^item> \<open>strconv.ParseFloat(s, 64)\<close>, \<^const>\<open>None\<close> when it returns an error (also a range
    error, where Go returns an infinity together with the error);
  \<^item> \<open>logfmt.Unmarshal\<close>, given as the \<open>(key, val)\<close> pairs it hands to its handler, in
    order, and the error it returns. The handler of this package always returns \<open>nil\<close>,
    so the error is the scanner's own; pairs handled before the error are still handled;
  \<^item> \<open>httime.GetTimestamp\<close>, which is handed the map itself (a Go map is a reference), so
    next to the time it returns, the map as it leaves it is part of its result. It is
    taken as a function of its three arguments; a clock it may read is not modelled.
\<close>

record externals =
  Compile :: "string \<Rightarrow> error + Regexp"
  ParseFloat :: "string \<Rightarrow> float64 option"
  Unmarshal :: "string \<Rightarrow> (string \<times> string) list \<times> error option"
  GetTimestamp :: "fields \<Rightarrow> string \<Rightarrow> string \<Rightarrow> Time \<times> fields"

text \<open>\<open>strings.TrimPrefix\<close>.\<close>

definition TrimPrefix :: "string \<Rightarrow> string \<Rightarrow> string" where
  "TrimPrefix s prefix =
     (if take (length prefix) s = prefix then drop (length prefix) s else s)"

subsection \<open>KeyValLineParser.ParseLine\<close>

text \<open>
  The closure \<open>f\<close> handed to \<open>logfmt.Unmarshal\<close>, with the map \<open>parsed\<close> it closes over
  passed through.
\<close>

definition HandleLogfmt :: "externals \<Rightarrow> string \<Rightarrow> string \<Rightarrow> fields \<Rightarrow> fields" where
  "HandleLogfmt ext keyStr valStr parsed =
     (case ParseBool valStr of
        Some b \<Rightarrow> AList.update keyStr (VBool b) parsed
      | None \<Rightarrow>
          (case Atoi valStr of
             Some i \<Rightarrow> AList.update keyStr (VInt i) parsed
           | None \<Rightarrow>
               (case ParseFloat ext valStr of
                  Some f \<Rightarrow> AList.update keyStr (VFloat f) parsed
                | None \<Rightarrow> AList.update keyStr (VString valStr) parsed)))"

definition KeyValLineParser_ParseLine :: "externals \<Rightarrow> string \<Rightarrow> fields \<times> error option" where
  "KeyValLineParser_ParseLine ext line =
     (case Unmarshal ext line of
        (pairs, err) \<Rightarrow> (fold (\<lambda>(key, val). HandleLogfmt ext key val) pairs [], err))"

text \<open>
  The \<open>parsers.LineParser\<close> interface: one method, \<open>ParseLine\<close>. The field of the parser
  that holds it is \<^const>\<open>None\<close> while it is nil.
\<close>

datatype LineParser = LineParser (ParseLine: "string \<Rightarrow> fields \<times> error option")

definition KeyValLineParser :: "externals \<Rightarrow> LineParser" where
  "KeyValLineParser ext = LineParser (KeyValLineParser_ParseLine ext)"

subsection \<open>Options, Parser and Init\<close>

record Options =
  TimeFieldName :: string
  TimeFieldFormat :: string
  FilterRegex :: string
  InvertFilter :: bool
  NumParsers :: int

record Parser =
  conf :: Options
  lineParser :: "LineParser option"
  filterRegex :: "Regexp option"
  warnedAboutTime :: bool

text \<open>
  \<open>Init\<close> takes an \<open>interface{}\<close> and asserts that it holds a \<open>*Options\<close>; any other
  value makes the assertion panic.
\<close>

datatype InitArg = OptionsPtr Options | OtherValue

text \<open>
  \<open>Init\<close> returns its error next to the parser as it leaves it. A failed
  \<open>regexp.Compile\<close> returns a nil pattern with its error, and that nil is what the
  assignment stores before \<open>Init\<close> returns.
\<close>

definition Init :: "externals \<Rightarrow> InitArg \<Rightarrow> Parser \<Rightarrow> (error option \<times> Parser) exec" where
  "Init ext options p =
     (case options of
        OtherValue \<Rightarrow> Panics
      | OptionsPtr opts \<Rightarrow>
          (if FilterRegex opts \<noteq> ''''
           then (case Compile ext (FilterRegex opts) of
                   Inl err \<Rightarrow> Returns (Some err, p\<lparr>conf := opts, filterRegex := None\<rparr>)
                 | Inr re \<Rightarrow>
                     Returns (None, p\<lparr>conf := opts, filterRegex := Some re,
                                       lineParser := Some (KeyValLineParser ext)\<rparr>))
           else Returns (None, p\<lparr>conf := opts, lineParser := Some (KeyValLineParser ext)\<rparr>)))"

subsection \<open>What a worker does to the outside\<close>

record Event =
  Timestamp :: Time
  Data :: fields

text \<open>
  The three calls into the \<open>reporting\<close> package, with their arguments (the context is
  passed on untouched and left out).
\<close>

datatype report =
    SkipWithFields string string fields
  | ParseError string error
  | Skip string string

text \<open>
  The outside of the pool: the reporting calls made so far and the events handed to the
  \<open>send\<close> channel so far, each in the order they happened. The debug log lines are left
  out.
\<close>

record world =
  reported :: "report list"
  sent :: "Event list"

definition reportTo :: "report \<Rightarrow> world \<Rightarrow> world" where
  "reportTo r w = w\<lparr>reported := reported w @ [r]\<rparr>"

definition sendTo :: "Event \<Rightarrow> world \<Rightarrow> world" where
  "sendTo e w = w\<lparr>sent := sent w @ [e]\<rparr>"

subsection \<open>allEmpty\<close>

text \<open>
  The loop returns false at the first value that is not a string or is not the empty
  string, and true when the map is exhausted.
\<close>

fun allEmpty :: "fields \<Rightarrow> bool" where
  "allEmpty [] = True"
| "allEmpty ((k, v) # pl) =
     (case v of
        VString vStr \<Rightarrow> if vStr \<noteq> '''' then False else allEmpty pl
      | _ \<Rightarrow> False)"

subsection \<open>One iteration of the worker loop\<close>

text \<open>Lines 95 to 100: the line without its prefix, and the prefix fields.\<close>

definition stripPrefix :: "ExtRegexp option \<Rightarrow> string \<Rightarrow> string \<times> (string \<times> string) list" where
  "stripPrefix prefixRegex line =
     (case prefixRegex of
        None \<Rightarrow> (line, [])
      | Some r \<Rightarrow>
          (case FindStringSubmatchMap r line of
             (prefix, prefixFields) \<Rightarrow> (TrimPrefix line prefix, prefixFields)))"

text \<open>Lines 120 to 122: \<open>parsedLine[k] = v\<close> for every prefix field.\<close>

definition mergePrefixFields :: "(string \<times> string) list \<Rightarrow> fields \<Rightarrow> fields" where
  "mergePrefixFields prefixFields parsedLine =
     fold (\<lambda>(k, v) m. AList.update k (VString v) m) prefixFields parsedLine"

text \<open>
  Lines 94 to 138, the iteration once the filter has let the line through. Every
  \<open>continue\<close> ends the iteration. From line 99 on, \<open>line\<close> is the line without its
  prefix, and that is what the reporting calls are given.
\<close>

definition parseAndSend ::
  "externals \<Rightarrow> Parser \<Rightarrow> ExtRegexp option \<Rightarrow> string \<Rightarrow> world \<Rightarrow> world exec" where
  "parseAndSend ext p prefixRegex line0 w =
     (case stripPrefix prefixRegex line0 of
        (line, prefixFields) \<Rightarrow>
          (case lineParser p of
             None \<Rightarrow> Panics
           | Some lp \<Rightarrow>
               (case ParseLine lp line of
                  (parsedLine, Some err) \<Rightarrow> Returns (reportTo (ParseError line err) w)
                | (parsedLine, None) \<Rightarrow>
                    if length parsedLine = 0
                    then Returns (reportTo (Skip line ''no key/val pairs found'') w)
                    else if allEmpty parsedLine
                    then Returns (reportTo (Skip line ''all values are the empty string'') w)
                    else
                      (case GetTimestamp ext (mergePrefixFields prefixFields parsedLine)
                              (TimeFieldName (conf p)) (TimeFieldFormat (conf p)) of
                         (timestamp, data) \<Rightarrow>
                           Returns (sendTo \<lparr>Timestamp = timestamp, Data = data\<rparr> w)))))"

text \<open>The whole body of \<open>for line := range lines\<close>, lines 83 to 138.\<close>

definition handleLine ::
  "externals \<Rightarrow> Parser \<Rightarrow> ExtRegexp option \<Rightarrow> string \<Rightarrow> world \<Rightarrow> world exec" where
  "handleLine ext p prefixRegex line w =
     (case filterRegex p of
        Some re \<Rightarrow>
          (let matched = MatchString re line in
           if matched = InvertFilter (conf p)
           then Returns (reportTo (SkipWithFields line ''due to provided filter_regex''
                                     [(''matched'', VBool matched)]) w)
           else parseAndSend ext p prefixRegex line w)
      | None \<Rightarrow> parseAndSend ext p prefixRegex line w)"

subsection \<open>ProcessLines: the pool of workers\<close>

text \<open>
  Each goroutine is at the head of its loop, waiting on \<open>range lines\<close>, or holds a line
  it has received and has yet to handle, or has left the loop and called \<open>wg.Done()\<close>.
\<close>

datatype worker = AtRange | HasLine string | Done

text \<open>
  The pool: the lines still in the \<open>lines\<close> channel, oldest first; whether the producer
  closes the channel behind the last of them; the goroutines; the outside; and whether a
  goroutine has panicked, which ends the process.
\<close>

record pool =
  chan :: "string list"
  closed :: bool
  workers :: "worker list"
  out :: world
  crashed :: bool

text \<open>
  One step of goroutine \<open>i\<close>. Receiving a line and handling it are separate steps, so
  that other goroutines can run in between; a goroutine that waits on an empty channel
  that is not closed, and one that is done, do not move. Handling a line touches the
  outside once, by a report or by the send, so it is a single step; the receiver of the
  \<open>send\<close> channel is taken to accept every event. All goroutines exist from the first
  state on: one that the \<open>for\<close> loop has yet to start is one that has yet to be
  scheduled.
\<close>

definition workerStep :: "externals \<Rightarrow> Parser \<Rightarrow> ExtRegexp option \<Rightarrow> nat \<Rightarrow> pool \<Rightarrow> pool" where
  "workerStep ext p prefixRegex i s =
     (if crashed s \<or> length (workers s) \<le> i then s
      else
        (case workers s ! i of
           AtRange \<Rightarrow>
             (case chan s of
                [] \<Rightarrow> if closed s then s\<lparr>workers := (workers s)[i := Done]\<rparr> else s
              | line # rest \<Rightarrow> s\<lparr>chan := rest, workers := (workers s)[i := HasLine line]\<rparr>)
         | HasLine line \<Rightarrow>
             (case handleLine ext p prefixRegex line (out s) of
                Panics \<Rightarrow> s\<lparr>crashed := True\<rparr>
              | Returns w \<Rightarrow> s\<lparr>out := w, workers := (workers s)[i := AtRange]\<rparr>)
         | Done \<Rightarrow> s))"

text \<open>
  The \<open>for\<close> loop of \<open>ProcessLines\<close> starts \<open>NumParsers\<close> goroutines, none when the count
  is zero or negative.
\<close>

definition ProcessLines :: "Parser \<Rightarrow> string list \<Rightarrow> bool \<Rightarrow> world \<Rightarrow> pool" where
  "ProcessLines p lines cl w =
     \<lparr>chan = lines, closed = cl,
      workers = replicate (nat (NumParsers (conf p))) AtRange,
      out = w, crashed = False\<rparr>"

text \<open>A schedule names the goroutine that takes each next step.\<close>

definition runPool ::
  "externals \<Rightarrow> Parser \<Rightarrow> ExtRegexp option \<Rightarrow> nat list \<Rightarrow> pool \<Rightarrow> pool" where
  "runPool ext p prefixRegex sched s = fold (workerStep ext p prefixRegex) sched s"

text \<open>\<open>wg.Wait()\<close> returns, and with it \<open>ProcessLines\<close>, once every goroutine is done.\<close>

definition returned :: "pool \<Rightarrow> bool" where
  "returned s = (\<not> crashed s \<and> list_all (\<lambda>g. g = Done) (workers s))"

text \<open>No goroutine can move.\<close>

definition quiescent :: "externals \<Rightarrow> Parser \<Rightarrow> ExtRegexp option \<Rightarrow> pool \<Rightarrow> bool" where
  "quiescent ext p prefixRegex s =
     list_all (\<lambda>i. workerStep ext p prefixRegex i s = s) [0 ..< length (workers s)]"

subsection \<open>Accounting for a pool\<close>

text \<open>
  The lines a pool has yet to handle: those still in the channel and those a goroutine
  holds.
\<close>

definition inFlight :: "worker \<Rightarrow> string multiset" where
  "inFlight g = (case g of HasLine line \<Rightarrow> {#line#} | _ \<Rightarrow> {#})"

definition pending :: "pool \<Rightarrow> string multiset" where
  "pending s = mset (chan s) + sum_list (map inFlight (workers s))"

text \<open>
  The number of steps a goroutine still owes once the channel is empty: one to handle the
  line it holds, and one to leave the loop when the channel is closed.
\<close>

definition owed :: "bool \<Rightarrow> worker \<Rightarrow> nat" where
  "owed cl g =
     (case g of
        AtRange \<Rightarrow> if cl then 1 else 0
      | HasLine line \<Rightarrow> if cl then 2 else 1
      | Done \<Rightarrow> 0)"

text \<open>Every line in the channel costs two steps: one to receive it, one to handle it.\<close>

definition stepsLeft :: "pool \<Rightarrow> nat" where
  "stepsLeft s = 2 * length (chan s) + sum_list (map (owed (closed s)) (workers s))"

text \<open>A schedule in which every step moves the goroutine it names.\<close>

fun effective :: "externals \<Rightarrow> Parser \<Rightarrow> ExtRegexp option \<Rightarrow> nat list \<Rightarrow> pool \<Rightarrow> bool" where
  "effective ext p prefixRegex [] s = True"
| "effective ext p prefixRegex (i # sched) s =
     (workerStep ext p prefixRegex i s \<noteq> s
      \<and> effective ext p prefixRegex sched (workerStep ext p prefixRegex i s))"

text \<open>
  The invariant of a pool started on the lines \<open>input\<close> with the outside \<open>w0\<close>, when
  handling a line sends the event \<open>ev\<close> gives for it: no goroutine has panicked; the
  events sent so far and the events of the lines yet to be handled make up the events sent
  before the start and the events of the input; nothing has been reported; the lines yet
  to be handled are lines of the input; and a goroutine is done only when the channel is
  empty and closed.
\<close>

definition accounted :: "(string \<Rightarrow> Event) \<Rightarrow> string list \<Rightarrow> world \<Rightarrow> pool \<Rightarrow> bool" where
  "accounted ev input w0 s =
     (\<not> crashed s
      \<and> mset (sent (out s)) + image_mset ev (pending s) =
          mset (sent w0) + image_mset ev (mset input)
      \<and> reported (out s) = reported w0
      \<and> set_mset (pending s) \<subseteq> set input
      \<and> (Done \<in> set (workers s) \<longrightarrow> chan s = [] \<and> closed s))"

subsection \<open>The inference order in the words of the specification\<close>

text \<open>
  The specification describes the typing of a token's value as an ordered list of
  attempts, boolean, then integer, then floating point, of which the first that succeeds
  gives the stored value, with the raw string as the fallback. This is that description;
  \<^const>\<open>HandleLogfmt\<close> above is the code.
\<close>

fun firstSuccess :: "('a \<Rightarrow> 'b option) list \<Rightarrow> 'a \<Rightarrow> 'b option" where
  "firstSuccess [] x = None"
| "firstSuccess (f # fs) x = (case f x of Some y \<Rightarrow> Some y | None \<Rightarrow> firstSuccess fs x)"

definition inferenceOrder :: "externals \<Rightarrow> (string \<Rightarrow> val option) list" where
  "inferenceOrder ext =
     [\<lambda>raw. map_option VBool (ParseBool raw),
      \<lambda>raw. map_option VInt (Atoi raw),
      \<lambda>raw. map_option VFloat (ParseFloat ext raw)]"

definition inferredValue :: "externals \<Rightarrow> string \<Rightarrow> val" where
  "inferredValue ext raw =
     (case firstSuccess (inferenceOrder ext) raw of Some v \<Rightarrow> v | None \<Rightarrow> VString raw)"

subsection \<open>The filter in the words of the specification\<close>

text \<open>
  The specification's filter is a function from the line, the optional pattern and the
  invert flag to the answer "process this line": always true without a pattern, and
  otherwise true when the match differs from the invert flag.
\<close>

definition processThisLine :: "Parser \<Rightarrow> string \<Rightarrow> bool" where
  "processThisLine p line =
     (case filterRegex p of
        None \<Rightarrow> True
      | Some re \<Rightarrow> MatchString re line \<noteq> InvertFilter (conf p))"

subsection \<open>The caller of the parser\<close>

text \<open>
  Modelled from the spec: the code that calls \<open>Init\<close> and then \<open>ProcessLines\<close> is not in
  this package. The specification says of it that an error of initialization "surfaces to
  the caller of initialization and prevents the pool from running at all": the caller
  hands the error on and starts no pool; after a successful \<open>Init\<close> it starts the pool on
  the parser that \<open>Init\<close> has set up.
\<close>

definition startParser ::
  "externals \<Rightarrow> InitArg \<Rightarrow> Parser \<Rightarrow> string list \<Rightarrow> bool \<Rightarrow> world \<Rightarrow> (error + pool) exec" where
  "startParser ext options p lines cl w =
     (case Init ext options p of
        Panics \<Rightarrow> Panics
      | Returns (Some err, p') \<Rightarrow> Returns (Inl err)
      | Returns (None, p') \<Rightarrow> Returns (Inr (ProcessLines p' lines cl w)))"

subsection \<open>A concrete setting\<close>

text \<open>
  The theorems below are instantiated in this setting: collaborators that answer on a
  handful of inputs as the real ones do (a quote is the byte \<open>0x22\<close>), a fresh parser and
  a set of options.
\<close>

definition demoUnmarshal :: "string \<Rightarrow> (string \<times> string) list \<times> error option" where
  "demoUnmarshal line =
     (if line = ''status=200 method=GET duration=1.5 cached=true''
      then ([(''status'', ''200''), (''method'', ''GET''), (''duration'', ''1.5''),
             (''cached'', ''true'')], None)
      else if line = ''up=1 down=0''
      then ([(''up'', ''1''), (''down'', ''0'')], None)
      else if line = ''host=db7 status=200''
      then ([(''host'', ''db7''), (''status'', ''200'')], None)
      else if line = ''msg= note=''
      then ([(''msg'', ''''), (''note'', '''')], None)
      else if line = ''msg='' @ [CHR 0x22] @ ''abc''
      then ([], Some (Error ''logfmt: unterminated string''))
      else ([], None))"

definition demoExternals :: externals where
  "demoExternals =
     \<lparr>Compile = (\<lambda>pat. if pat = ''^ERROR''
                        then Inr (Regexp (\<lambda>line. take 5 line = ''ERROR''))
                        else Inl (Error ''error parsing regexp'')),
      ParseFloat = (\<lambda>s. if s = ''1.5'' then Some (Float64 0x3FF8000000000000) else None),
      Unmarshal = demoUnmarshal,
      GetTimestamp = (\<lambda>m name format. (0, m))\<rparr>"

definition demoOptions :: Options where
  "demoOptions =
     \<lparr>TimeFieldName = '''', TimeFieldFormat = '''', FilterRegex = '''',
      InvertFilter = False, NumParsers = 2\<rparr>"

definition freshParser :: Parser where
  "freshParser =
     \<lparr>conf = \<lparr>TimeFieldName = '''', TimeFieldFormat = '''', FilterRegex = '''',
              InvertFilter = False, NumParsers = 0\<rparr>,
      lineParser = None, filterRegex = None, warnedAboutTime = False\<rparr>"

definition demoParser :: Parser where
  "demoParser =
     \<lparr>conf = demoOptions, lineParser = Some (KeyValLineParser demoExternals),
      filterRegex = None, warnedAboutTime = False\<rparr>"

definition demoFilterParser :: Parser where
  "demoFilterParser =
     demoParser\<lparr>conf := demoOptions\<lparr>FilterRegex := ''^ERROR''\<rparr>,
                 filterRegex := Some (Regexp (\<lambda>line. take 5 line = ''ERROR''))\<rparr>"

definition demoPrefix :: ExtRegexp where
  "demoPrefix =
     ExtRegexp (\<lambda>line. if take 5 line = ''web1 '' then (''web1 '', [(''host'', ''web1'')])
                        else ('''', []))"

definition demoLines :: "string list" where
  "demoLines =
     [''status=200 method=GET duration=1.5 cached=true'', ''up=1 down=0'',
      ''host=db7 status=200'']"

definition demoEvent :: "string \<Rightarrow> Event" where
  "demoEvent line = \<lparr>Timestamp = 0, Data = fst (KeyValLineParser_ParseLine demoExternals line)\<rparr>"

definition emptyWorld :: world where
  "emptyWorld = \<lparr>reported = [], sent = []\<rparr>"

section \<open>Properties\<close>

subsection \<open>The handler and the standard library calls\<close>

lemma inferredValue_chain:
  "inferredValue ext raw =
     (case ParseBool raw of
        Some b \<Rightarrow> VBool b
      | None \<Rightarrow>
          (case Atoi raw of
             Some i \<Rightarrow> VInt i
           | None \<Rightarrow> (case ParseFloat ext raw of Some f \<Rightarrow> VFloat f | None \<Rightarrow> VString raw)))"
  by (simp add: inferredValue_def inferenceOrder_def split: option.splits)

lemma HandleLogfmt_stores:
  "HandleLogfmt ext key raw parsed = AList.update key (inferredValue ext raw) parsed"
  by (simp add: HandleLogfmt_def inferredValue_chain split: option.splits)

lemma fold_HandleLogfmt_lookup:
  "map_of (fold (\<lambda>(k, v). HandleLogfmt ext k v) pairs acc) key =
     (case map_of (rev pairs) key of
        Some raw \<Rightarrow> Some (inferredValue ext raw)
      | None \<Rightarrow> map_of acc key)"
proof (induction pairs arbitrary: acc)
  case Nil
  then show ?case by simp
next
  case (Cons kv pairs)
  obtain k v where kv: "kv = (k, v)" by (cases kv)
  have "map_of (fold (\<lambda>(k, v). HandleLogfmt ext k v) (kv # pairs) acc) key =
          (case map_of (rev pairs) key of
             Some raw \<Rightarrow> Some (inferredValue ext raw)
           | None \<Rightarrow> map_of (HandleLogfmt ext k v acc) key)"
    using Cons.IH [of "HandleLogfmt ext k v acc"] by (simp add: kv)
  also have "\<dots> = (case map_of (rev (kv # pairs)) key of
                     Some raw \<Rightarrow> Some (inferredValue ext raw)
                   | None \<Rightarrow> map_of acc key)"
    by (simp add: kv HandleLogfmt_stores update_conv' map_add_def split: option.splits)
  finally show ?case .
qed

lemma fold_HandleLogfmt_distinct:
  "distinct (map fst acc) \<Longrightarrow> distinct (map fst (fold (\<lambda>(k, v). HandleLogfmt ext k v) pairs acc))"
  by (induction pairs arbitrary: acc) (auto simp: HandleLogfmt_stores distinct_update)

lemma foldl_digits_nonneg:
  "0 \<le> n \<Longrightarrow> list_all isDigit ds \<Longrightarrow> 0 \<le> foldl (\<lambda>n c. 10 * n + (of_char c - 48)) (n::int) ds"
  by (induction ds arbitrary: n) (auto simp: isDigit_def)

lemma digitsValue_nonneg: "list_all isDigit ds \<Longrightarrow> 0 \<le> digitsValue ds"
  unfolding digitsValue_def by (rule foldl_digits_nonneg) simp_all

lemma AtoiDigits_range:
  "AtoiDigits neg ds = Some i \<Longrightarrow> - (2 ^ 63) \<le> i \<and> i < 2 ^ 63"
  using digitsValue_nonneg [of ds]
  by (auto simp: AtoiDigits_def intSize_def Let_def split: if_splits)

lemma Atoi_range:
  "Atoi s = Some i \<Longrightarrow> - (2 ^ 63) \<le> i \<and> i < 2 ^ 63"
  by (cases s) (auto split: if_splits dest: AtoiDigits_range)

subsection \<open>Type inference\<close>

text \<open>
  C1. The handler stores, under the token's key, the value the specification's inference
  order gives for the raw text: the boolean when the boolean parse succeeds, else the
  integer (within the range of a 64-bit signed integer) when the integer parse succeeds,
  else the float when the float parse succeeds, else the raw string itself. One of the
  four always applies, so every token gets a value. For a whole line, every key is stored
  with the inferred value of the last token that carries it. So \<open>true\<close> is stored as a
  boolean and \<open>42\<close> as an integer; \<open>3.14\<close>, \<open>42x\<close> and the empty string are neither
  booleans nor integers, and are stored as \<open>strconv.ParseFloat\<close> decides: as a float when
  it accepts them and as the string otherwise.
\<close>

theorem type_inference_order:
  "HandleLogfmt ext key raw parsed = AList.update key (inferredValue ext raw) parsed
   \<and> (ParseBool raw = Some b \<longrightarrow> inferredValue ext raw = VBool b)
   \<and> (ParseBool raw = None \<and> Atoi raw = Some i \<longrightarrow>
        inferredValue ext raw = VInt i \<and> - (2 ^ 63) \<le> i \<and> i < 2 ^ 63)
   \<and> (ParseBool raw = None \<and> Atoi raw = None \<and> ParseFloat ext raw = Some f \<longrightarrow>
        inferredValue ext raw = VFloat f)
   \<and> (ParseBool raw = None \<and> Atoi raw = None \<and> ParseFloat ext raw = None \<longrightarrow>
        inferredValue ext raw = VString raw)
   \<and> (Unmarshal ext line = (pairs, err) \<longrightarrow>
        map_of (fst (KeyValLineParser_ParseLine ext line)) key =
          map_option (inferredValue ext) (map_of (rev pairs) key))
   \<and> inferredValue ext ''true'' = VBool True
   \<and> inferredValue ext ''42'' = VInt 42
   \<and> (ParseFloat ext ''3.14'' = Some f \<longrightarrow> inferredValue ext ''3.14'' = VFloat f)
   \<and> (ParseFloat ext ''42x'' = None \<longrightarrow> inferredValue ext ''42x'' = VString ''42x'')
   \<and> (ParseFloat ext '''' = None \<longrightarrow> inferredValue ext '''' = VString '''')"
proof -
  have examples:
    "inferredValue ext ''true'' = VBool True"
    "inferredValue ext ''42'' = VInt 42"
    "ParseFloat ext ''3.14'' = Some f \<longrightarrow> inferredValue ext ''3.14'' = VFloat f"
    "ParseFloat ext ''42x'' = None \<longrightarrow> inferredValue ext ''42x'' = VString ''42x''"
    "ParseFloat ext '''' = None \<longrightarrow> inferredValue ext '''' = VString ''''"
    by (simp_all add: inferredValue_chain ParseBool_def AtoiDigits_def isDigit_def
        digitsValue_def intSize_def)
  have stored: "HandleLogfmt ext key raw parsed = AList.update key (inferredValue ext raw) parsed"
    by (rule HandleLogfmt_stores)
  have chain:
    "(ParseBool raw = Some b \<longrightarrow> inferredValue ext raw = VBool b)
     \<and> (ParseBool raw = None \<and> Atoi raw = Some i \<longrightarrow> inferredValue ext raw = VInt i)
     \<and> (ParseBool raw = None \<and> Atoi raw = None \<and> ParseFloat ext raw = Some f \<longrightarrow>
          inferredValue ext raw = VFloat f)
     \<and> (ParseBool raw = None \<and> Atoi raw = None \<and> ParseFloat ext raw = None \<longrightarrow>
          inferredValue ext raw = VString raw)"
    by (simp add: inferredValue_chain)
  have range: "Atoi raw = Some i \<longrightarrow> - (2 ^ 63) \<le> i \<and> i < 2 ^ 63"
    using Atoi_range by blast
  have line: "Unmarshal ext line = (pairs, err) \<longrightarrow>
        map_of (fst (KeyValLineParser_ParseLine ext line)) key =
          map_option (inferredValue ext) (map_of (rev pairs) key)"
    by (simp add: KeyValLineParser_ParseLine_def fold_HandleLogfmt_lookup split: option.splits)
  from stored chain range line examples show ?thesis by blast
qed

theorem type_inference_order_witness:
  "Unmarshal demoExternals ''status=200 method=GET duration=1.5 cached=true'' =
     ([(''status'', ''200''), (''method'', ''GET''), (''duration'', ''1.5''),
       (''cached'', ''true'')], None)
   \<and> ParseBool ''200'' = None \<and> Atoi ''200'' = Some 200
   \<and> ParseBool ''1.5'' = None \<and> Atoi ''1.5'' = None
   \<and> ParseFloat demoExternals ''1.5'' = Some (Float64 0x3FF8000000000000)
   \<and> ParseBool ''GET'' = None \<and> Atoi ''GET'' = None \<and> ParseFloat demoExternals ''GET'' = None
   \<and> ParseBool ''true'' = Some True
   \<and> map_of (fst (KeyValLineParser_ParseLine demoExternals
        ''status=200 method=GET duration=1.5 cached=true'')) ''status'' = Some (VInt 200)
   \<and> map_of (fst (KeyValLineParser_ParseLine demoExternals
        ''status=200 method=GET duration=1.5 cached=true'')) ''method'' = Some (VString ''GET'')
   \<and> map_of (fst (KeyValLineParser_ParseLine demoExternals
        ''status=200 method=GET duration=1.5 cached=true'')) ''duration'' =
        Some (VFloat (Float64 0x3FF8000000000000))
   \<and> map_of (fst (KeyValLineParser_ParseLine demoExternals
        ''status=200 method=GET duration=1.5 cached=true'')) ''cached'' = Some (VBool True)"
  using
    type_inference_order [of demoExternals "''status''" "''200''" "[]" True 200
      "Float64 0" "''status=200 method=GET duration=1.5 cached=true''"
      "[(''status'', ''200''), (''method'', ''GET''), (''duration'', ''1.5''),
       (''cached'', ''true'')]" None]
    type_inference_order [of demoExternals "''method''" "''GET''" "[]" True 0
      "Float64 0" "''status=200 method=GET duration=1.5 cached=true''"
      "[(''status'', ''200''), (''method'', ''GET''), (''duration'', ''1.5''),
       (''cached'', ''true'')]" None]
    type_inference_order [of demoExternals "''duration''" "''1.5''" "[]" True 0
      "Float64 0x3FF8000000000000" "''status=200 method=GET duration=1.5 cached=true''"
      "[(''status'', ''200''), (''method'', ''GET''), (''duration'', ''1.5''),
       (''cached'', ''true'')]" None]
    type_inference_order [of demoExternals "''cached''" "''true''" "[]" True 0
      "Float64 0" "''status=200 method=GET duration=1.5 cached=true''"
      "[(''status'', ''200''), (''method'', ''GET''), (''duration'', ''1.5''),
       (''cached'', ''true'')]" None]
  by (simp add: demoExternals_def demoUnmarshal_def ParseBool_def AtoiDigits_def isDigit_def
      digitsValue_def intSize_def)

subsection \<open>The worker loop, line by line\<close>

lemma allEmpty_iff: "allEmpty pl \<longleftrightarrow> (\<forall>kv \<in> set pl. snd kv = VString '''')"
  by (induction pl rule: allEmpty.induct) (auto split: val.splits)

lemma mergePrefixFields_lookup:
  "distinct (map fst prefixFields) \<Longrightarrow>
   map_of (mergePrefixFields prefixFields parsedLine) k =
     (case map_of prefixFields k of
        Some v \<Rightarrow> Some (VString v)
      | None \<Rightarrow> map_of parsedLine k)"
  unfolding mergePrefixFields_def
proof (induction prefixFields arbitrary: parsedLine)
  case Nil
  then show ?case by simp
next
  case (Cons kv prefixFields)
  obtain k' v' where kv: "kv = (k', v')" by (cases kv)
  from Cons.prems have d: "distinct (map fst prefixFields)" and n: "k' \<notin> fst ` set prefixFields"
    by (simp_all add: kv)
  from n have none: "map_of prefixFields k' = None"
    by (simp add: map_of_eq_None_iff)
  show ?case
    using Cons.IH [OF d, of "AList.update k' (VString v') parsedLine"] none
    by (simp add: kv update_conv' split: option.splits)
qed

lemma handleLine_filter:
  "handleLine ext p prefixRegex line w =
     (if processThisLine p line then parseAndSend ext p prefixRegex line w
      else Returns (w\<lparr>reported := reported w @
             [SkipWithFields line ''due to provided filter_regex''
                [(''matched'', VBool (InvertFilter (conf p)))]]\<rparr>))"
  by (auto simp: handleLine_def processThisLine_def reportTo_def Let_def split: option.splits)

lemma parseAndSend_cases:
  assumes "lineParser p = Some lp"
    and "stripPrefix prefixRegex line0 = (line, prefixFields)"
    and "ParseLine lp line = (parsedLine, err)"
  shows "parseAndSend ext p prefixRegex line0 w =
     (case err of
        Some e \<Rightarrow> Returns (w\<lparr>reported := reported w @ [ParseError line e]\<rparr>)
      | None \<Rightarrow>
          if parsedLine = [] then
            Returns (w\<lparr>reported := reported w @ [Skip line ''no key/val pairs found'']\<rparr>)
          else if allEmpty parsedLine then
            Returns (w\<lparr>reported := reported w @ [Skip line ''all values are the empty string'']\<rparr>)
          else
            Returns (w\<lparr>sent := sent w @
              [\<lparr>Timestamp = fst (GetTimestamp ext (mergePrefixFields prefixFields parsedLine)
                               (TimeFieldName (conf p)) (TimeFieldFormat (conf p))),
                Data = snd (GetTimestamp ext (mergePrefixFields prefixFields parsedLine)
                               (TimeFieldName (conf p)) (TimeFieldFormat (conf p)))\<rparr>]\<rparr>))"
  using assms
  by (simp add: parseAndSend_def reportTo_def sendTo_def split: option.splits prod.splits)

lemma world_append_reported_neq:
  "w\<lparr>reported := reported w @ [r]\<rparr> \<noteq> w\<lparr>reported := reported w @ [r']\<rparr>" if "r \<noteq> r'"
proof
  assume "w\<lparr>reported := reported w @ [r]\<rparr> = w\<lparr>reported := reported w @ [r']\<rparr>"
  then have "reported (w\<lparr>reported := reported w @ [r]\<rparr>) = reported (w\<lparr>reported := reported w @ [r']\<rparr>)"
    by simp
  with that show False by simp
qed

lemma parseAndSend_not_filter_skip:
  "parseAndSend ext p prefixRegex line0 w \<noteq>
     Returns (w\<lparr>reported := reported w @ [SkipWithFields a b c]\<rparr>)"
proof (cases "lineParser p")
  case None
  then show ?thesis by (simp add: parseAndSend_def split: prod.splits)
next
  case (Some lp)
  obtain line prefixFields where sp: "stripPrefix prefixRegex line0 = (line, prefixFields)"
    by (cases "stripPrefix prefixRegex line0")
  obtain parsedLine err where pl: "ParseLine lp line = (parsedLine, err)"
    by (cases "ParseLine lp line")
  have sent_neq: "w\<lparr>sent := sent w @ [e]\<rparr> \<noteq> w\<lparr>reported := reported w @ [r]\<rparr>" for e r
  proof
    assume "w\<lparr>sent := sent w @ [e]\<rparr> = w\<lparr>reported := reported w @ [r]\<rparr>"
    then have "sent (w\<lparr>sent := sent w @ [e]\<rparr>) = sent (w\<lparr>reported := reported w @ [r]\<rparr>)"
      by simp
    then show False by simp
  qed
  show ?thesis
    unfolding parseAndSend_cases [OF Some sp pl]
    by (auto split: option.splits simp: world_append_reported_neq sent_neq)
qed

text \<open>
  C2. For a line that the filter lets through, the three rejections come in a fixed order.
  An error from the line parser is reported as a parse error whatever the map holds. With
  no error, an empty map is reported as "no key/val pairs found", although an empty map
  also satisfies \<^const>\<open>allEmpty\<close>. With no error and a map that is not empty, a map of
  empty strings only is reported as "all values are the empty string". In each case the
  outside gains exactly one reporting call and no event is sent.
\<close>

theorem rejection_rules_in_order:
  assumes "processThisLine p line0"
    and "lineParser p = Some lp"
    and "stripPrefix prefixRegex line0 = (line, prefixFields)"
    and "ParseLine lp line = (parsedLine, err)"
  shows "(\<forall>e. err = Some e \<longrightarrow>
            handleLine ext p prefixRegex line0 w =
              Returns (w\<lparr>reported := reported w @ [ParseError line e]\<rparr>))
       \<and> (err = None \<and> length parsedLine = 0 \<longrightarrow>
            allEmpty parsedLine \<and>
            handleLine ext p prefixRegex line0 w =
              Returns (w\<lparr>reported := reported w @ [Skip line ''no key/val pairs found'']\<rparr>))
       \<and> (err = None \<and> length parsedLine \<noteq> 0 \<and> allEmpty parsedLine \<longrightarrow>
            handleLine ext p prefixRegex line0 w =
              Returns (w\<lparr>reported := reported w @
                         [Skip line ''all values are the empty string'']\<rparr>))"
  using assms(1) parseAndSend_cases [OF assms(2-4), of ext w]
  by (auto simp: handleLine_filter)

theorem rejection_rules_in_order_witness:
  "processThisLine demoParser (''msg='' @ [CHR 0x22] @ ''abc'')
   \<and> handleLine demoExternals demoParser None (''msg='' @ [CHR 0x22] @ ''abc'') emptyWorld =
       Returns \<lparr>reported = [ParseError (''msg='' @ [CHR 0x22] @ ''abc'')
                              (Error ''logfmt: unterminated string'')], sent = []\<rparr>
   \<and> handleLine demoExternals demoParser None '''' emptyWorld =
       Returns \<lparr>reported = [Skip '''' ''no key/val pairs found''], sent = []\<rparr>
   \<and> handleLine demoExternals demoParser None ''msg= note='' emptyWorld =
       Returns \<lparr>reported = [Skip ''msg= note='' ''all values are the empty string''],
                sent = []\<rparr>"
  using
    rejection_rules_in_order [of demoParser "''msg='' @ [CHR 0x22] @ ''abc''"
      "KeyValLineParser demoExternals" None "''msg='' @ [CHR 0x22] @ ''abc''" "[]" "[]"
      "Some (Error ''logfmt: unterminated string'')" demoExternals emptyWorld]
    rejection_rules_in_order [of demoParser "''''"
      "KeyValLineParser demoExternals" None "''''" "[]" "[]" None demoExternals emptyWorld]
    rejection_rules_in_order [of demoParser "''msg= note=''"
      "KeyValLineParser demoExternals" None "''msg= note=''" "[]"
      "[(''msg'', VString ''''), (''note'', VString '''')]" None demoExternals emptyWorld]
  by (simp add: processThisLine_def demoParser_def demoExternals_def demoUnmarshal_def
      KeyValLineParser_def KeyValLineParser_ParseLine_def stripPrefix_def emptyWorld_def
      HandleLogfmt_def ParseBool_def AtoiDigits_def)

lemma merged_not_allEmpty:
  assumes "distinct (map fst prefixFields)"
    and "(k, v) \<in> set prefixFields"
    and "v \<noteq> ''''"
  shows "\<not> allEmpty (mergePrefixFields prefixFields parsedLine)"
proof -
  from assms(1,2) have "map_of prefixFields k = Some v"
    by simp
  then have "map_of (mergePrefixFields prefixFields parsedLine) k = Some (VString v)"
    by (simp add: mergePrefixFields_lookup [OF assms(1)])
  then have "(k, VString v) \<in> set (mergePrefixFields prefixFields parsedLine)"
    by (rule map_of_SomeD)
  with assms(3)
  have "\<exists>kv \<in> set (mergePrefixFields prefixFields parsedLine). snd kv \<noteq> VString ''''"
    by force
  then show ?thesis
    by (simp add: allEmpty_iff)
qed

text \<open>
  C3. The test for a map of empty strings only is made on the map the line parser
  returned, before the prefix fields are merged into it. A line whose parsed map is not
  empty and holds empty strings only is reported as "all values are the empty string"
  whatever prefix fields the prefix expression found, although a prefix field with a value
  that is not empty would make the merged map fail that test.
\<close>

theorem all_empty_checked_before_merge:
  assumes "processThisLine p line0"
    and "lineParser p = Some lp"
    and "FindStringSubmatchMap r line0 = (prefix, prefixFields)"
    and "ParseLine lp (TrimPrefix line0 prefix) = (parsedLine, None)"
    and "parsedLine \<noteq> []"
    and "allEmpty parsedLine"
  shows "handleLine ext p (Some r) line0 w =
           Returns (w\<lparr>reported := reported w @
                      [Skip (TrimPrefix line0 prefix) ''all values are the empty string'']\<rparr>)
       \<and> (distinct (map fst prefixFields) \<and> (k, v) \<in> set prefixFields \<and> v \<noteq> '''' \<longrightarrow>
            \<not> allEmpty (mergePrefixFields prefixFields parsedLine))"
proof -
  have sp: "stripPrefix (Some r) line0 = (TrimPrefix line0 prefix, prefixFields)"
    by (simp add: stripPrefix_def assms(3))
  show ?thesis
    using assms(1,5,6) parseAndSend_cases [OF assms(2) sp assms(4), of ext w]
      merged_not_allEmpty [of prefixFields k v parsedLine]
    by (auto simp: handleLine_filter)
qed

theorem all_empty_checked_before_merge_witness:
  "processThisLine demoParser ''web1 msg= note=''
   \<and> FindStringSubmatchMap demoPrefix ''web1 msg= note='' = (''web1 '', [(''host'', ''web1'')])
   \<and> ParseLine (KeyValLineParser demoExternals) ''msg= note='' =
        ([(''msg'', VString ''''), (''note'', VString '''')], None)
   \<and> handleLine demoExternals demoParser (Some demoPrefix) ''web1 msg= note='' emptyWorld =
        Returns \<lparr>reported = [Skip ''msg= note='' ''all values are the empty string''],
                 sent = []\<rparr>
   \<and> \<not> allEmpty (mergePrefixFields [(''host'', ''web1'')]
          [(''msg'', VString ''''), (''note'', VString '''')])"
  using all_empty_checked_before_merge [where p = demoParser and ?line0.0 = "''web1 msg= note=''"
      and lp = "KeyValLineParser demoExternals" and r = demoPrefix and prefix = "''web1 ''"
      and prefixFields = "[(''host'', ''web1'')]"
      and parsedLine = "[(''msg'', VString ''''), (''note'', VString '''')]"
      and k = "''host''" and v = "''web1''" and ext = demoExternals and w = emptyWorld]
  by (simp add: processThisLine_def demoParser_def demoExternals_def demoUnmarshal_def
      demoPrefix_def KeyValLineParser_def KeyValLineParser_ParseLine_def TrimPrefix_def
      emptyWorld_def HandleLogfmt_def ParseBool_def AtoiDigits_def)

text \<open>
  C4. Without a filter pattern every line goes on to prefix extraction and parsing. With a
  pattern, the line goes on exactly when the match differs from the invert flag: when the
  flag is off, exactly the matching lines, when it is on, exactly the others. A line that
  does not go on is reported with the observed match, and nothing else happens to it:
  the result is the same for every prefix expression, every line parser (even a nil one)
  and every timestamp function. The code agrees with the specification's filter. A parser
  that \<open>Init\<close> has set up from a fresh one has a pattern exactly when the options name
  one, and it is the compiled pattern of the options.
\<close>

theorem filter_decides_processing:
  "(filterRegex p = None \<longrightarrow>
      handleLine ext p prefixRegex line w = parseAndSend ext p prefixRegex line w)
   \<and> (filterRegex p = Some re \<longrightarrow>
        processThisLine p line = (MatchString re line \<noteq> InvertFilter (conf p))
        \<and> (MatchString re line \<noteq> InvertFilter (conf p) \<longrightarrow>
             handleLine ext p prefixRegex line w = parseAndSend ext p prefixRegex line w)
        \<and> (MatchString re line = InvertFilter (conf p) \<longrightarrow>
             (\<forall>ext' prefixRegex' lp'.
                handleLine ext' (p\<lparr>lineParser := lp'\<rparr>) prefixRegex' line w =
                  Returns (w\<lparr>reported := reported w @
                    [SkipWithFields line ''due to provided filter_regex''
                       [(''matched'', VBool (MatchString re line))]]\<rparr>)))
        \<and> (\<not> InvertFilter (conf p) \<longrightarrow> processThisLine p line = MatchString re line)
        \<and> (InvertFilter (conf p) \<longrightarrow> processThisLine p line = (\<not> MatchString re line)))
   \<and> (handleLine ext p prefixRegex line w = parseAndSend ext p prefixRegex line w
        \<longleftrightarrow> processThisLine p line)
   \<and> (filterRegex p0 = None \<and> Init ext (OptionsPtr opts) p0 = Returns (None, p) \<longrightarrow>
        conf p = opts
        \<and> (FilterRegex opts = '''' \<longrightarrow> filterRegex p = None)
        \<and> (FilterRegex opts \<noteq> '''' \<longrightarrow>
             (\<exists>re'. Compile ext (FilterRegex opts) = Inr re' \<and> filterRegex p = Some re')))"
proof -
  have a: "filterRegex p = None \<longrightarrow>
      handleLine ext p prefixRegex line w = parseAndSend ext p prefixRegex line w"
    by (simp add: handleLine_def)
  have b: "filterRegex p = Some re \<longrightarrow>
        processThisLine p line = (MatchString re line \<noteq> InvertFilter (conf p))"
    by (simp add: processThisLine_def)
  have c: "filterRegex p = Some re \<longrightarrow> MatchString re line \<noteq> InvertFilter (conf p) \<longrightarrow>
             handleLine ext p prefixRegex line w = parseAndSend ext p prefixRegex line w"
    by (simp add: handleLine_def)
  have d: "filterRegex p = Some re \<longrightarrow> MatchString re line = InvertFilter (conf p) \<longrightarrow>
             (\<forall>ext' prefixRegex' lp'.
                handleLine ext' (p\<lparr>lineParser := lp'\<rparr>) prefixRegex' line w =
                  Returns (w\<lparr>reported := reported w @
                    [SkipWithFields line ''due to provided filter_regex''
                       [(''matched'', VBool (MatchString re line))]]\<rparr>))"
    by (simp add: handleLine_def reportTo_def)
  have e: "handleLine ext p prefixRegex line w = parseAndSend ext p prefixRegex line w
        \<longleftrightarrow> processThisLine p line"
  proof (cases "processThisLine p line")
    case True
    then show ?thesis by (simp add: handleLine_filter)
  next
    case False
    then show ?thesis
      using parseAndSend_not_filter_skip [of ext p prefixRegex line w, symmetric]
      by (simp add: handleLine_filter)
  qed
  have f: "filterRegex p0 = None \<and> Init ext (OptionsPtr opts) p0 = Returns (None, p) \<longrightarrow>
        conf p = opts
        \<and> (FilterRegex opts = '''' \<longrightarrow> filterRegex p = None)
        \<and> (FilterRegex opts \<noteq> '''' \<longrightarrow>
             (\<exists>re'. Compile ext (FilterRegex opts) = Inr re' \<and> filterRegex p = Some re'))"
    by (auto simp: Init_def split: if_splits sum.splits)
  from a b c d e f show ?thesis by auto
qed

theorem filter_decides_processing_witness:
  "filterRegex freshParser = None
   \<and> Init demoExternals (OptionsPtr (demoOptions\<lparr>FilterRegex := ''^ERROR''\<rparr>)) freshParser =
       Returns (None, demoFilterParser)
   \<and> filterRegex demoFilterParser = Some (Regexp (\<lambda>line. take 5 line = ''ERROR''))
   \<and> \<not> InvertFilter (conf demoFilterParser)
   \<and> \<not> MatchString (Regexp (\<lambda>line. take 5 line = ''ERROR'')) ''INFO starting up''
   \<and> \<not> processThisLine demoFilterParser ''INFO starting up''
   \<and> handleLine demoExternals demoFilterParser None ''INFO starting up'' emptyWorld =
       Returns \<lparr>reported = [SkipWithFields ''INFO starting up'' ''due to provided filter_regex''
                              [(''matched'', VBool False)]], sent = []\<rparr>
   \<and> processThisLine demoFilterParser ''ERROR msg= note=''
   \<and> handleLine demoExternals demoFilterParser None ''ERROR msg= note='' emptyWorld =
       parseAndSend demoExternals demoFilterParser None ''ERROR msg= note='' emptyWorld"
  using
    filter_decides_processing [where p = demoFilterParser
      and re = "Regexp (\<lambda>line. take 5 line = ''ERROR'')" and line = "''INFO starting up''"
      and ext = demoExternals and prefixRegex = None and w = emptyWorld
      and ?p0.0 = freshParser and opts = "demoOptions\<lparr>FilterRegex := ''^ERROR''\<rparr>"]
    filter_decides_processing [where p = demoFilterParser
      and re = "Regexp (\<lambda>line. take 5 line = ''ERROR'')" and line = "''ERROR msg= note=''"
      and ext = demoExternals and prefixRegex = None and w = emptyWorld
      and ?p0.0 = freshParser and opts = "demoOptions\<lparr>FilterRegex := ''^ERROR''\<rparr>"]
  by (simp add: demoFilterParser_def demoParser_def demoOptions_def emptyWorld_def
      freshParser_def Init_def demoExternals_def)

text \<open>
  C5. For a line that passes the filter and the three rejections, the prefix fields are
  merged into the parsed map after the line has been parsed, and the merged map is what
  the timestamp function is given and the event is built from. In the merged map every key
  of the prefix fields holds the prefix field's value, as a string, also when the parsed
  map had a value under that key; every other key keeps its parsed value. The keys of a
  Go map are distinct, which is the hypothesis on the prefix fields.
\<close>

theorem header_fields_win:
  assumes "processThisLine p line0"
    and "lineParser p = Some lp"
    and "stripPrefix prefixRegex line0 = (line, prefixFields)"
    and "ParseLine lp line = (parsedLine, None)"
    and "parsedLine \<noteq> []"
    and "\<not> allEmpty parsedLine"
    and "distinct (map fst prefixFields)"
  shows "handleLine ext p prefixRegex line0 w =
           Returns (w\<lparr>sent := sent w @
             [\<lparr>Timestamp = fst (GetTimestamp ext (mergePrefixFields prefixFields parsedLine)
                              (TimeFieldName (conf p)) (TimeFieldFormat (conf p))),
               Data = snd (GetTimestamp ext (mergePrefixFields prefixFields parsedLine)
                              (TimeFieldName (conf p)) (TimeFieldFormat (conf p)))\<rparr>]\<rparr>)
       \<and> (\<forall>k v. map_of prefixFields k = Some v \<longrightarrow>
             map_of (mergePrefixFields prefixFields parsedLine) k = Some (VString v))
       \<and> (\<forall>k. map_of prefixFields k = None \<longrightarrow>
             map_of (mergePrefixFields prefixFields parsedLine) k = map_of parsedLine k)"
  using assms(1,5,6) parseAndSend_cases [OF assms(2-4), of ext w]
  by (simp add: handleLine_filter mergePrefixFields_lookup [OF assms(7)])

theorem header_fields_win_witness:
  "processThisLine demoParser ''web1 host=db7 status=200''
   \<and> stripPrefix (Some demoPrefix) ''web1 host=db7 status=200'' =
        (''host=db7 status=200'', [(''host'', ''web1'')])
   \<and> ParseLine (KeyValLineParser demoExternals) ''host=db7 status=200'' =
        ([(''host'', VString ''db7''), (''status'', VInt 200)], None)
   \<and> handleLine demoExternals demoParser (Some demoPrefix) ''web1 host=db7 status=200''
        emptyWorld =
        Returns \<lparr>reported = [],
                 sent = [\<lparr>Timestamp = 0,
                          Data = [(''host'', VString ''web1''), (''status'', VInt 200)]\<rparr>]\<rparr>
   \<and> map_of (mergePrefixFields [(''host'', ''web1'')]
         [(''host'', VString ''db7''), (''status'', VInt 200)]) ''host'' = Some (VString ''web1'')"
  using header_fields_win [where p = demoParser and ?line0.0 = "''web1 host=db7 status=200''"
      and lp = "KeyValLineParser demoExternals" and prefixRegex = "Some demoPrefix"
      and line = "''host=db7 status=200''" and prefixFields = "[(''host'', ''web1'')]"
      and parsedLine = "[(''host'', VString ''db7''), (''status'', VInt 200)]"
      and ext = demoExternals and w = emptyWorld]
  by (simp add: processThisLine_def demoParser_def demoExternals_def demoUnmarshal_def
      demoPrefix_def stripPrefix_def KeyValLineParser_def KeyValLineParser_ParseLine_def
      TrimPrefix_def emptyWorld_def HandleLogfmt_def ParseBool_def AtoiDigits_def isDigit_def
      digitsValue_def intSize_def mergePrefixFields_def demoOptions_def)

text \<open>
  C6. \<^const>\<open>allEmpty\<close> holds exactly when every value of the map is the empty string,
  whatever the order in which the map is ranged over. A map with a value that is not a
  string, or with a string that is not empty, does not satisfy it; such a map, when it
  comes from a line the filter lets through and the parser accepts, passes the third
  rejection and an event is sent.
\<close>

theorem allEmpty_characterised:
  "(allEmpty pl \<longleftrightarrow> (\<forall>kv \<in> set pl. snd kv = VString ''''))
   \<and> (distinct (map fst pl) \<longrightarrow> (allEmpty pl \<longleftrightarrow> (\<forall>v \<in> ran (map_of pl). v = VString '''')))
   \<and> ((k, v) \<in> set pl \<and> (\<forall>s. v \<noteq> VString s) \<longrightarrow> \<not> allEmpty pl)
   \<and> ((k, VString s) \<in> set pl \<and> s \<noteq> '''' \<longrightarrow> \<not> allEmpty pl)
   \<and> (processThisLine p line0 \<and> lineParser p = Some lp
        \<and> stripPrefix prefixRegex line0 = (line, prefixFields)
        \<and> ParseLine lp line = (pl, None) \<and> pl \<noteq> [] \<and> \<not> allEmpty pl \<longrightarrow>
        (\<exists>e. handleLine ext p prefixRegex line0 w = Returns (w\<lparr>sent := sent w @ [e]\<rparr>)))"
proof -
  have a: "allEmpty pl \<longleftrightarrow> (\<forall>kv \<in> set pl. snd kv = VString '''')"
    by (rule allEmpty_iff)
  have b: "distinct (map fst pl) \<longrightarrow>
        (allEmpty pl \<longleftrightarrow> (\<forall>v \<in> ran (map_of pl). v = VString ''''))"
    by (auto simp: allEmpty_iff ran_distinct)
  have c: "(k, v) \<in> set pl \<and> (\<forall>s. v \<noteq> VString s) \<longrightarrow> \<not> allEmpty pl"
    by (force simp: allEmpty_iff)
  have d: "(k, VString s) \<in> set pl \<and> s \<noteq> '''' \<longrightarrow> \<not> allEmpty pl"
    by (force simp: allEmpty_iff)
  have e: "processThisLine p line0 \<and> lineParser p = Some lp
        \<and> stripPrefix prefixRegex line0 = (line, prefixFields)
        \<and> ParseLine lp line = (pl, None) \<and> pl \<noteq> [] \<and> \<not> allEmpty pl \<longrightarrow>
        (\<exists>e. handleLine ext p prefixRegex line0 w = Returns (w\<lparr>sent := sent w @ [e]\<rparr>))"
  proof (intro impI, elim conjE)
    assume h: "processThisLine p line0" "lineParser p = Some lp"
      "stripPrefix prefixRegex line0 = (line, prefixFields)"
      "ParseLine lp line = (pl, None)" "pl \<noteq> []" "\<not> allEmpty pl"
    show "\<exists>e. handleLine ext p prefixRegex line0 w = Returns (w\<lparr>sent := sent w @ [e]\<rparr>)"
      using h(1,5,6) parseAndSend_cases [OF h(2-4), of ext w]
      by (simp add: handleLine_filter) blast
  qed
  from a b c d e show ?thesis by blast
qed

theorem allEmpty_characterised_witness:
  "allEmpty [(''msg'', VString ''''), (''note'', VString '''')]
   \<and> \<not> allEmpty [(''msg'', VString ''''), (''n'', VInt 0)]
   \<and> \<not> allEmpty [(''msg'', VString ''''), (''note'', VString ''x'')]
   \<and> processThisLine demoParser ''up=1 down=0''
   \<and> ParseLine (KeyValLineParser demoExternals) ''up=1 down=0'' =
        ([(''up'', VBool True), (''down'', VBool False)], None)
   \<and> (\<exists>e. handleLine demoExternals demoParser None ''up=1 down=0'' emptyWorld =
          Returns (emptyWorld\<lparr>sent := sent emptyWorld @ [e]\<rparr>))"
  using
    allEmpty_characterised [where pl = "[(''msg'', VString ''''), (''note'', VString '''')]"]
    allEmpty_characterised [where pl = "[(''msg'', VString ''''), (''n'', VInt 0)]"
      and k = "''n''" and v = "VInt 0"]
    allEmpty_characterised [where pl = "[(''msg'', VString ''''), (''note'', VString ''x'')]"
      and k = "''note''" and s = "''x''"]
    allEmpty_characterised [where pl = "[(''up'', VBool True), (''down'', VBool False)]"
      and p = demoParser and ?line0.0 = "''up=1 down=0''"
      and lp = "KeyValLineParser demoExternals" and prefixRegex = None
      and line = "''up=1 down=0''" and prefixFields = "[]" and ext = demoExternals
      and w = emptyWorld]
  by (simp add: processThisLine_def demoParser_def demoExternals_def demoUnmarshal_def
      stripPrefix_def KeyValLineParser_def KeyValLineParser_ParseLine_def
      HandleLogfmt_def ParseBool_def)

subsection \<open>Init\<close>

text \<open>
  C7. When the filter pattern of the options is not empty and \<open>regexp.Compile\<close> rejects
  it, \<open>Init\<close> returns that error, leaving the parser without a pattern and without a line
  parser; the caller, as the specification describes it, hands the error on and starts no
  pool. The worker loop never compiles a pattern: its result does not depend on
  \<open>regexp.Compile\<close>, so a malformed pattern cannot fail a line.
\<close>

theorem malformed_filter_fails_init:
  assumes "FilterRegex opts \<noteq> ''''"
    and "Compile ext (FilterRegex opts) = Inl err"
  shows "Init ext (OptionsPtr opts) p = Returns (Some err, p\<lparr>conf := opts, filterRegex := None\<rparr>)
       \<and> startParser ext (OptionsPtr opts) p lines cl w = Returns (Inl err)
       \<and> handleLine (ext\<lparr>Compile := c\<rparr>) q prefixRegex line w' =
           handleLine ext q prefixRegex line w'"
proof -
  have ps: "parseAndSend (ext\<lparr>Compile := c\<rparr>) q prefixRegex line w' =
      parseAndSend ext q prefixRegex line w'"
    by (simp add: parseAndSend_def split: prod.splits option.splits)
  have hl: "handleLine (ext\<lparr>Compile := c\<rparr>) q prefixRegex line w' =
      handleLine ext q prefixRegex line w'"
    by (simp add: handleLine_def ps Let_def split: option.splits)
  from assms hl show ?thesis
    by (simp add: Init_def startParser_def)
qed

theorem malformed_filter_fails_init_witness:
  "FilterRegex (demoOptions\<lparr>FilterRegex := ''(''\<rparr>) \<noteq> ''''
   \<and> Compile demoExternals ''('' = Inl (Error ''error parsing regexp'')
   \<and> Init demoExternals (OptionsPtr (demoOptions\<lparr>FilterRegex := ''(''\<rparr>)) freshParser =
        Returns (Some (Error ''error parsing regexp''),
                 freshParser\<lparr>conf := demoOptions\<lparr>FilterRegex := ''(''\<rparr>, filterRegex := None\<rparr>)
   \<and> startParser demoExternals (OptionsPtr (demoOptions\<lparr>FilterRegex := ''(''\<rparr>)) freshParser
        [''status=200 method=GET duration=1.5 cached=true''] True emptyWorld =
        Returns (Inl (Error ''error parsing regexp''))"
  using malformed_filter_fails_init [where opts = "demoOptions\<lparr>FilterRegex := ''(''\<rparr>"
      and ext = demoExternals and err = "Error ''error parsing regexp''" and p = freshParser
      and lines = "[''status=200 method=GET duration=1.5 cached=true'']" and cl = True
      and w = emptyWorld]
  by (simp add: demoExternals_def demoOptions_def)

subsection \<open>Booleans before integers\<close>

text \<open>
  C10. \<open>strconv.ParseBool\<close> accepts \<open>1 t T true TRUE True\<close> as true and
  \<open>0 f F false FALSE False\<close> as false, and nothing else. It is tried first, so the
  values \<open>1\<close> and \<open>0\<close>, which \<open>strconv.Atoi\<close> would read as the integers 1 and 0, are
  stored as the booleans true and false, by the handler and in the map of a whole line.
\<close>

theorem one_and_zero_are_booleans:
  "(ParseBool raw = Some True \<longleftrightarrow> raw \<in> set [''1'', ''t'', ''T'', ''true'', ''TRUE'', ''True''])
   \<and> (ParseBool raw = Some False \<longleftrightarrow>
        raw \<in> set [''0'', ''f'', ''F'', ''false'', ''FALSE'', ''False''])
   \<and> Atoi ''1'' = Some 1 \<and> Atoi ''0'' = Some 0
   \<and> HandleLogfmt ext key ''1'' parsed = AList.update key (VBool True) parsed
   \<and> HandleLogfmt ext key ''0'' parsed = AList.update key (VBool False) parsed
   \<and> (Unmarshal ext line = (pairs, err) \<and> map_of (rev pairs) key = Some ''1'' \<longrightarrow>
        map_of (fst (KeyValLineParser_ParseLine ext line)) key = Some (VBool True))
   \<and> (Unmarshal ext line = (pairs, err) \<and> map_of (rev pairs) key = Some ''0'' \<longrightarrow>
        map_of (fst (KeyValLineParser_ParseLine ext line)) key = Some (VBool False))"
proof -
  have a: "ParseBool raw = Some True \<longleftrightarrow>
      raw \<in> set [''1'', ''t'', ''T'', ''true'', ''TRUE'', ''True'']"
    by (simp add: ParseBool_def)
  have b: "ParseBool raw = Some False \<longleftrightarrow>
      raw \<in> set [''0'', ''f'', ''F'', ''false'', ''FALSE'', ''False'']"
    by (auto simp: ParseBool_def)
  have c: "Atoi ''1'' = Some 1 \<and> Atoi ''0'' = Some 0"
    by (simp add: AtoiDigits_def isDigit_def digitsValue_def intSize_def)
  have d: "HandleLogfmt ext key ''1'' parsed = AList.update key (VBool True) parsed"
    "HandleLogfmt ext key ''0'' parsed = AList.update key (VBool False) parsed"
    by (simp_all add: HandleLogfmt_def ParseBool_def)
  have i1: "inferredValue ext ''1'' = VBool True" and i0: "inferredValue ext ''0'' = VBool False"
    by (simp_all add: inferredValue_chain ParseBool_def)
  have e: "Unmarshal ext line = (pairs, err) \<and> map_of (rev pairs) key = Some ''1'' \<longrightarrow>
        map_of (fst (KeyValLineParser_ParseLine ext line)) key = Some (VBool True)"
    by (simp add: KeyValLineParser_ParseLine_def fold_HandleLogfmt_lookup i1)
  have f: "Unmarshal ext line = (pairs, err) \<and> map_of (rev pairs) key = Some ''0'' \<longrightarrow>
        map_of (fst (KeyValLineParser_ParseLine ext line)) key = Some (VBool False)"
    by (simp add: KeyValLineParser_ParseLine_def fold_HandleLogfmt_lookup i0)
  from a b c d e f show ?thesis by blast
qed

theorem one_and_zero_are_booleans_witness:
  "Unmarshal demoExternals ''up=1 down=0'' = ([(''up'', ''1''), (''down'', ''0'')], None)
   \<and> map_of (fst (KeyValLineParser_ParseLine demoExternals ''up=1 down=0'')) ''up'' =
        Some (VBool True)
   \<and> map_of (fst (KeyValLineParser_ParseLine demoExternals ''up=1 down=0'')) ''down'' =
        Some (VBool False)
   \<and> ParseBool ''1'' = Some True \<and> ParseBool ''0'' = Some False"
  using
    one_and_zero_are_booleans [where ext = demoExternals and line = "''up=1 down=0''"
      and pairs = "[(''up'', ''1''), (''down'', ''0'')]" and err = None and key = "''up''"
      and raw = "''1''"]
    one_and_zero_are_booleans [where ext = demoExternals and line = "''up=1 down=0''"
      and pairs = "[(''up'', ''1''), (''down'', ''0'')]" and err = None and key = "''down''"
      and raw = "''0''"]
  by (simp add: demoExternals_def demoUnmarshal_def)

subsection \<open>The pool\<close>

lemma runPool_Nil: "runPool ext p prefixRegex [] s = s"
  by (simp add: runPool_def)

lemma runPool_Cons:
  "runPool ext p prefixRegex (i # sched) s =
     runPool ext p prefixRegex sched (workerStep ext p prefixRegex i s)"
  by (simp add: runPool_def)

lemma workerStep_no_workers:
  "workers s = [] \<Longrightarrow> workerStep ext p prefixRegex i s = s"
  by (simp add: workerStep_def)

lemma runPool_no_workers:
  "workers s = [] \<Longrightarrow> runPool ext p prefixRegex sched s = s"
  by (induction sched) (simp_all add: runPool_Nil runPool_Cons workerStep_no_workers)

text \<open>
  C9. With a worker count of zero \<open>ProcessLines\<close> starts no goroutine, so \<open>wg.Wait()\<close>
  returns at once: the pool has returned in its first state, whether or not the channel
  is closed. No schedule changes that state: the lines stay in the channel, nothing is
  reported and nothing is sent.
\<close>

theorem zero_workers_do_nothing:
  assumes "NumParsers (conf p) = 0"
  shows "workers (ProcessLines p lines cl w) = []
       \<and> returned (ProcessLines p lines cl w)
       \<and> runPool ext p prefixRegex sched (ProcessLines p lines cl w) = ProcessLines p lines cl w
       \<and> chan (ProcessLines p lines cl w) = lines
       \<and> out (ProcessLines p lines cl w) = w"
proof -
  have none: "workers (ProcessLines p lines cl w) = []"
    using assms by (simp add: ProcessLines_def)
  then show ?thesis
    by (simp add: runPool_no_workers returned_def) (simp add: ProcessLines_def)
qed

theorem zero_workers_do_nothing_witness:
  "NumParsers (conf (demoParser\<lparr>conf := demoOptions\<lparr>NumParsers := 0\<rparr>\<rparr>)) = 0
   \<and> returned (ProcessLines (demoParser\<lparr>conf := demoOptions\<lparr>NumParsers := 0\<rparr>\<rparr>)
        [''up=1 down=0'', ''host=db7 status=200''] False emptyWorld)
   \<and> runPool demoExternals (demoParser\<lparr>conf := demoOptions\<lparr>NumParsers := 0\<rparr>\<rparr>) None [0, 1, 0]
        (ProcessLines (demoParser\<lparr>conf := demoOptions\<lparr>NumParsers := 0\<rparr>\<rparr>)
           [''up=1 down=0'', ''host=db7 status=200''] False emptyWorld) =
        \<lparr>chan = [''up=1 down=0'', ''host=db7 status=200''], closed = False, workers = [],
         out = emptyWorld, crashed = False\<rparr>"
  using zero_workers_do_nothing [where p = "demoParser\<lparr>conf := demoOptions\<lparr>NumParsers := 0\<rparr>\<rparr>"
      and lines = "[''up=1 down=0'', ''host=db7 status=200'']" and cl = False
      and w = emptyWorld and ext = demoExternals and prefixRegex = None and sched = "[0, 1, 0]"]
  by (simp add: ProcessLines_def)

lemma sum_list_map_update:
  fixes f :: "'a \<Rightarrow> 'b::comm_monoid_add"
  shows "i < length xs \<Longrightarrow>
    sum_list (map f (xs[i := y])) + f (xs ! i) = sum_list (map f xs) + f y"
proof (induction xs arbitrary: i)
  case Nil
  then show ?case by simp
next
  case (Cons x xs)
  show ?case
  proof (cases i)
    case 0
    then show ?thesis by (simp add: ac_simps)
  next
    case (Suc j)
    with Cons.prems have "j < length xs" by simp
    from Cons.IH [OF this] show ?thesis
      by (simp add: Suc ac_simps)
  qed
qed

lemma inFlight_in_sum:
  "g \<in> set ws \<Longrightarrow> line \<in># inFlight g \<Longrightarrow> line \<in># sum_list (map inFlight ws)"
  by (induction ws) auto

lemma held_line_pending:
  assumes "i < length (workers s)" and "workers s ! i = HasLine line"
  shows "line \<in># pending s"
proof -
  from assms have "HasLine line \<in> set (workers s)"
    by (metis nth_mem)
  then have "line \<in># sum_list (map inFlight (workers s))"
    by (rule inFlight_in_sum) (simp add: inFlight_def)
  then show ?thesis by (simp add: pending_def)
qed

text \<open>The three moves of a goroutine.\<close>

lemma step_receive:
  assumes "\<not> crashed s" "i < length (workers s)" "workers s ! i = AtRange"
    and "chan s = line # rest"
  shows "workerStep ext p prefixRegex i s =
           s\<lparr>chan := rest, workers := (workers s)[i := HasLine line]\<rparr>"
  using assms by (simp add: workerStep_def)

lemma step_leave:
  assumes "\<not> crashed s" "i < length (workers s)" "workers s ! i = AtRange"
    and "chan s = []" "closed s"
  shows "workerStep ext p prefixRegex i s = s\<lparr>workers := (workers s)[i := Done]\<rparr>"
  using assms by (simp add: workerStep_def)

lemma step_handle:
  assumes "\<not> crashed s" "i < length (workers s)" "workers s ! i = HasLine line"
    and "handleLine ext p prefixRegex line (out s) = Returns w"
  shows "workerStep ext p prefixRegex i s =
           s\<lparr>out := w, workers := (workers s)[i := AtRange]\<rparr>"
  using assms by (simp add: workerStep_def)

lemma step_stays:
  assumes "crashed s \<or> length (workers s) \<le> i \<or> workers s ! i = Done
      \<or> (workers s ! i = AtRange \<and> chan s = [] \<and> \<not> closed s)"
  shows "workerStep ext p prefixRegex i s = s"
  using assms by (auto simp: workerStep_def)

lemma workers_update_neq:
  assumes "i < length (workers s)" and "workers s ! i \<noteq> g"
  shows "s\<lparr>workers := (workers s)[i := g]\<rparr> \<noteq> s"
    and "s\<lparr>out := w, workers := (workers s)[i := g]\<rparr> \<noteq> s"
    and "s\<lparr>chan := c, workers := (workers s)[i := g]\<rparr> \<noteq> s"
proof -
  have neq: "(workers s)[i := g] \<noteq> workers s"
    using assms by (metis nth_list_update_eq)
  show "s\<lparr>workers := (workers s)[i := g]\<rparr> \<noteq> s"
  proof
    assume "s\<lparr>workers := (workers s)[i := g]\<rparr> = s"
    then have "workers (s\<lparr>workers := (workers s)[i := g]\<rparr>) = workers s" by simp
    with neq show False by simp
  qed
  show "s\<lparr>out := w, workers := (workers s)[i := g]\<rparr> \<noteq> s"
  proof
    assume "s\<lparr>out := w, workers := (workers s)[i := g]\<rparr> = s"
    then have "workers (s\<lparr>out := w, workers := (workers s)[i := g]\<rparr>) = workers s" by simp
    with neq show False by simp
  qed
  show "s\<lparr>chan := c, workers := (workers s)[i := g]\<rparr> \<noteq> s"
  proof
    assume "s\<lparr>chan := c, workers := (workers s)[i := g]\<rparr> = s"
    then have "workers (s\<lparr>chan := c, workers := (workers s)[i := g]\<rparr>) = workers s" by simp
    with neq show False by simp
  qed
qed

lemma step_moves_iff:
  assumes "\<not> crashed s" and "i < length (workers s)"
  shows "workerStep ext p prefixRegex i s = s \<longleftrightarrow>
           workers s ! i = Done \<or> (workers s ! i = AtRange \<and> chan s = [] \<and> \<not> closed s)"
proof (cases "workers s ! i")
  case AtRange
  show ?thesis
  proof (cases "chan s")
    case Nil
    show ?thesis
    proof (cases "closed s")
      case True
      with assms AtRange Nil show ?thesis
        by (simp add: step_leave workers_update_neq)
    next
      case False
      with assms AtRange Nil show ?thesis
        by (simp add: step_stays)
    qed
  next
    case (Cons line rest)
    with assms AtRange show ?thesis
      by (simp add: step_receive workers_update_neq)
  qed
next
  case (HasLine line)
  show ?thesis
  proof (cases "handleLine ext p prefixRegex line (out s)")
    case Panics
    have "s\<lparr>crashed := True\<rparr> \<noteq> s"
    proof
      assume "s\<lparr>crashed := True\<rparr> = s"
      then have "crashed (s\<lparr>crashed := True\<rparr>) = crashed s" by simp
      with assms(1) show False by simp
    qed
    with assms HasLine Panics show ?thesis
      by (simp add: workerStep_def)
  next
    case (Returns w)
    with assms HasLine show ?thesis
      by (simp add: step_handle workers_update_neq)
  qed
next
  case Done
  with assms show ?thesis by (simp add: step_stays)
qed

lemma workerStep_length:
  "length (workers (workerStep ext p prefixRegex i s)) = length (workers s)"
  by (simp add: workerStep_def split: worker.splits list.splits exec.splits)

lemma accounted_step:
  assumes acc: "accounted ev input w0 s"
    and ok: "\<forall>line \<in> set input. \<forall>w. handleLine ext p prefixRegex line w = Returns (sendTo (ev line) w)"
  shows "accounted ev input w0 (workerStep ext p prefixRegex i s)"
proof (cases "workerStep ext p prefixRegex i s = s")
  case True
  with acc show ?thesis by simp
next
  case False
  from acc have nc: "\<not> crashed s" by (simp add: accounted_def)
  from False have i: "i < length (workers s)"
    using step_stays [of s i ext p prefixRegex] by force
  from acc have ev: "mset (sent (out s)) + image_mset ev (pending s) =
      mset (sent w0) + image_mset ev (mset input)"
    and rep: "reported (out s) = reported w0"
    and sub: "set_mset (pending s) \<subseteq> set input"
    and dn: "Done \<in> set (workers s) \<longrightarrow> chan s = [] \<and> closed s"
    by (simp_all add: accounted_def)
  show ?thesis
  proof (cases "workers s ! i")
    case AtRange
    have upd: "sum_list (map inFlight ((workers s)[i := g])) =
        sum_list (map inFlight (workers s)) + inFlight g" for g
      using sum_list_map_update [OF i, of inFlight g] AtRange by (simp add: inFlight_def)
    show ?thesis
    proof (cases "chan s")
      case Nil
      with False nc i AtRange have cl: "closed s"
        using step_stays [of s i ext p prefixRegex] by blast
      have st: "workerStep ext p prefixRegex i s = s\<lparr>workers := (workers s)[i := Done]\<rparr>"
        by (rule step_leave [OF nc i AtRange Nil cl])
      have pend: "pending (s\<lparr>workers := (workers s)[i := Done]\<rparr>) = pending s"
        by (simp add: pending_def upd) (simp add: inFlight_def)
      show ?thesis
        unfolding st accounted_def pend
        using nc ev rep sub Nil cl by simp
    next
      case (Cons line rest)
      have st: "workerStep ext p prefixRegex i s =
          s\<lparr>chan := rest, workers := (workers s)[i := HasLine line]\<rparr>"
        by (rule step_receive [OF nc i AtRange Cons])
      have pend: "pending (s\<lparr>chan := rest, workers := (workers s)[i := HasLine line]\<rparr>) =
          pending s"
        by (simp add: pending_def upd Cons) (simp add: inFlight_def)
      from dn Cons have "Done \<notin> set (workers s)" by auto
      then have nodone: "Done \<notin> set ((workers s)[i := HasLine line])"
        using set_update_subset_insert [of "workers s" i "HasLine line"] by auto
      show ?thesis
        unfolding st accounted_def pend
        using nc ev rep sub nodone by simp
    qed
  next
    case (HasLine line)
    have "line \<in># pending s"
      by (rule held_line_pending [OF i HasLine])
    with sub have "line \<in> set input" by auto
    with ok have hl: "handleLine ext p prefixRegex line (out s) = Returns (sendTo (ev line) (out s))"
      by blast
    have st: "workerStep ext p prefixRegex i s =
        s\<lparr>out := sendTo (ev line) (out s), workers := (workers s)[i := AtRange]\<rparr>"
      by (rule step_handle [OF nc i HasLine hl])
    have "sum_list (map inFlight ((workers s)[i := AtRange])) + {#line#} =
        sum_list (map inFlight (workers s))"
      using sum_list_map_update [OF i, of inFlight AtRange] HasLine by (simp add: inFlight_def)
    then have pend: "pending (s\<lparr>out := sendTo (ev line) (out s),
        workers := (workers s)[i := AtRange]\<rparr>) + {#line#} = pending s"
      by (simp add: pending_def)
    from pend have sub': "set_mset (pending (s\<lparr>out := sendTo (ev line) (out s),
        workers := (workers s)[i := AtRange]\<rparr>)) \<subseteq> set_mset (pending s)"
      by (metis mset_subset_eq_add_left set_mset_mono)
    have ev': "mset (sent (sendTo (ev line) (out s))) +
        image_mset ev (pending (s\<lparr>out := sendTo (ev line) (out s),
          workers := (workers s)[i := AtRange]\<rparr>)) =
        mset (sent w0) + image_mset ev (mset input)"
      using ev by (simp add: pend [symmetric] sendTo_def)
    have dn': "Done \<in> set ((workers s)[i := AtRange]) \<longrightarrow> chan s = [] \<and> closed s"
      using dn set_update_subset_insert [of "workers s" i AtRange] by auto
    show ?thesis
      unfolding st accounted_def
      using nc ev' rep sub sub' dn' by (simp add: sendTo_def)
  next
    case Done
    with False show ?thesis
      using step_stays [of s i ext p prefixRegex] by blast
  qed
qed

lemma accounted_run:
  assumes "accounted ev input w0 s"
    and "\<forall>line \<in> set input. \<forall>w. handleLine ext p prefixRegex line w = Returns (sendTo (ev line) w)"
  shows "accounted ev input w0 (runPool ext p prefixRegex sched s)"
  using assms(1)
proof (induction sched arbitrary: s)
  case Nil
  then show ?case by (simp add: runPool_Nil)
next
  case (Cons i sched)
  from Cons.prems have "accounted ev input w0 (workerStep ext p prefixRegex i s)"
    by (rule accounted_step) (rule assms(2))
  then show ?case
    by (simp add: runPool_Cons Cons.IH)
qed

lemma sum_list_replicate_empty: "sum_list (replicate n ({#} :: 'a multiset)) = {#}"
  by (induction n) simp_all

lemma accounted_start:
  "accounted ev input w (ProcessLines p input cl w)"
  by (simp add: accounted_def ProcessLines_def pending_def inFlight_def
      sum_list_replicate_empty)

lemma stepsLeft_step:
  assumes nc: "\<not> crashed s"
    and moves: "workerStep ext p prefixRegex i s \<noteq> s"
    and nocrash: "\<not> crashed (workerStep ext p prefixRegex i s)"
  shows "stepsLeft (workerStep ext p prefixRegex i s) + 1 = stepsLeft s"
proof -
  from moves have i: "i < length (workers s)"
    using step_stays [of s i ext p prefixRegex] by force
  have upd: "sum_list (map (owed c) ((workers s)[i := g])) + owed c (workers s ! i) =
      sum_list (map (owed c) (workers s)) + owed c g" for c g
    by (rule sum_list_map_update [OF i])
  show ?thesis
  proof (cases "workers s ! i")
    case AtRange
    show ?thesis
    proof (cases "chan s")
      case Nil
      with moves nc i AtRange have cl: "closed s"
        using step_stays [of s i ext p prefixRegex] by blast
      show ?thesis
        using upd [of True Done] AtRange cl
        by (simp add: step_leave [OF nc i AtRange Nil cl] stepsLeft_def owed_def)
    next
      case (Cons line rest)
      show ?thesis
        using upd [of "closed s" "HasLine line"] AtRange Cons
        by (cases "closed s")
          (simp_all add: step_receive [OF nc i AtRange Cons] stepsLeft_def owed_def)
    qed
  next
    case (HasLine line)
    show ?thesis
    proof (cases "handleLine ext p prefixRegex line (out s)")
      case Panics
      with nc i HasLine have "crashed (workerStep ext p prefixRegex i s)"
        by (simp add: workerStep_def)
      with nocrash show ?thesis by simp
    next
      case (Returns w)
      show ?thesis
        using upd [of "closed s" AtRange] HasLine
        by (cases "closed s")
          (simp_all add: step_handle [OF nc i HasLine Returns] stepsLeft_def owed_def)
    qed
  next
    case Done
    with moves show ?thesis
      using step_stays [of s i ext p prefixRegex] by blast
  qed
qed

lemma quiescent_iff:
  "quiescent ext p prefixRegex s \<longleftrightarrow>
     (\<forall>i < length (workers s). workerStep ext p prefixRegex i s = s)"
  by (auto simp: quiescent_def list_all_iff)

lemma sum_list_owed_zero:
  "sum_list (map (owed c) ws) = 0 \<longleftrightarrow> (\<forall>g \<in> set ws. owed c g = 0)"
  by (induction ws) auto

lemma quiescent_stepsLeft:
  assumes nc: "\<not> crashed s"
    and dn: "Done \<in> set (workers s) \<longrightarrow> chan s = [] \<and> closed s"
    and some: "workers s \<noteq> []"
  shows "quiescent ext p prefixRegex s \<longleftrightarrow> stepsLeft s = 0"
proof
  assume q: "quiescent ext p prefixRegex s"
  then have stay: "\<forall>i < length (workers s).
      workers s ! i = Done \<or> (workers s ! i = AtRange \<and> chan s = [] \<and> \<not> closed s)"
    using nc by (simp add: quiescent_iff step_moves_iff)
  from some have "0 < length (workers s)" by simp
  with stay dn have empty: "chan s = []"
    by (metis nth_mem)
  have "owed (closed s) g = 0" if "g \<in> set (workers s)" for g
  proof -
    from that obtain i where "i < length (workers s)" "workers s ! i = g"
      by (auto simp: in_set_conv_nth)
    with stay show ?thesis by (auto simp: owed_def)
  qed
  with empty show "stepsLeft s = 0"
    by (simp add: stepsLeft_def sum_list_owed_zero)
next
  assume z: "stepsLeft s = 0"
  then have empty: "chan s = []" and owes: "\<forall>g \<in> set (workers s). owed (closed s) g = 0"
    by (simp_all add: stepsLeft_def sum_list_owed_zero)
  have "workers s ! i = Done \<or> (workers s ! i = AtRange \<and> chan s = [] \<and> \<not> closed s)"
    if "i < length (workers s)" for i
  proof -
    from that owes have "owed (closed s) (workers s ! i) = 0" by simp
    with empty show ?thesis
      by (cases "workers s ! i") (auto simp: owed_def split: if_splits)
  qed
  then show "quiescent ext p prefixRegex s"
    using nc by (simp add: quiescent_iff step_moves_iff)
qed

lemma returned_quiescent:
  "returned s \<Longrightarrow> quiescent ext p prefixRegex s"
  by (auto simp: returned_def quiescent_iff list_all_iff intro: step_stays)

lemma quiescent_closed_returned:
  assumes "\<not> crashed s" and "closed s" and "quiescent ext p prefixRegex s"
  shows "returned s"
proof -
  from assms have "\<forall>i < length (workers s). workers s ! i = Done"
    by (simp add: quiescent_iff step_moves_iff)
  with assms(1) show ?thesis
    by (auto simp: returned_def list_all_iff in_set_conv_nth)
qed

lemma owed_zero_inFlight: "owed c g = 0 \<Longrightarrow> inFlight g = {#}"
  by (cases g) (simp_all add: owed_def inFlight_def split: if_splits)

lemma sum_list_inFlight_empty:
  "\<forall>g \<in> set ws. inFlight g = {#} \<Longrightarrow> sum_list (map inFlight ws) = {#}"
  by (induction ws) simp_all

lemma stepsLeft_zero_pending:
  assumes "stepsLeft s = 0"
  shows "pending s = {#}"
proof -
  from assms have empty: "chan s = []" and owes: "\<forall>g \<in> set (workers s). owed (closed s) g = 0"
    by (simp_all add: stepsLeft_def sum_list_owed_zero)
  from owes have "\<forall>g \<in> set (workers s). inFlight g = {#}"
    by (blast intro: owed_zero_inFlight)
  then have "sum_list (map inFlight (workers s)) = {#}"
    by (rule sum_list_inFlight_empty)
  with empty show ?thesis by (simp add: pending_def)
qed

lemma effective_steps:
  assumes ok: "\<forall>line \<in> set input. \<forall>w. handleLine ext p prefixRegex line w = Returns (sendTo (ev line) w)"
  shows "accounted ev input w0 s \<Longrightarrow> effective ext p prefixRegex sched s \<Longrightarrow>
    length sched + stepsLeft (runPool ext p prefixRegex sched s) = stepsLeft s"
proof (induction sched arbitrary: s)
  case Nil
  then show ?case by (simp add: runPool_Nil)
next
  case (Cons i sched)
  let ?s = "workerStep ext p prefixRegex i s"
  from Cons.prems(2) have moves: "?s \<noteq> s" and rest: "effective ext p prefixRegex sched ?s"
    by simp_all
  have acc: "accounted ev input w0 ?s"
    by (rule accounted_step [OF Cons.prems(1) ok])
  from Cons.prems(1) acc have "\<not> crashed s" "\<not> crashed ?s"
    by (simp_all add: accounted_def)
  then have "stepsLeft ?s + 1 = stepsLeft s"
    using moves by (intro stepsLeft_step)
  with Cons.IH [OF acc rest] show ?case
    by (simp add: runPool_Cons)
qed

lemma reaches_quiescence:
  assumes ok: "\<forall>line \<in> set input. \<forall>w. handleLine ext p prefixRegex line w = Returns (sendTo (ev line) w)"
  shows "accounted ev input w0 s \<Longrightarrow> workers s \<noteq> [] \<Longrightarrow> stepsLeft s = n \<Longrightarrow>
    \<exists>sched. effective ext p prefixRegex sched s
      \<and> quiescent ext p prefixRegex (runPool ext p prefixRegex sched s)"
proof (induction n arbitrary: s)
  case 0
  then have "quiescent ext p prefixRegex s"
    by (simp add: quiescent_stepsLeft accounted_def)
  then have "effective ext p prefixRegex [] s
      \<and> quiescent ext p prefixRegex (runPool ext p prefixRegex [] s)"
    by (simp add: runPool_Nil)
  then show ?case by blast
next
  case (Suc n)
  from Suc.prems have nc: "\<not> crashed s"
    and dn: "Done \<in> set (workers s) \<longrightarrow> chan s = [] \<and> closed s"
    by (simp_all add: accounted_def)
  from Suc.prems(3) have "\<not> quiescent ext p prefixRegex s"
    by (simp add: quiescent_stepsLeft [OF nc dn Suc.prems(2)])
  then obtain i where moves: "workerStep ext p prefixRegex i s \<noteq> s"
    by (auto simp: quiescent_iff)
  let ?s = "workerStep ext p prefixRegex i s"
  have acc: "accounted ev input w0 ?s"
    by (rule accounted_step [OF Suc.prems(1) ok])
  then have "\<not> crashed ?s" by (simp add: accounted_def)
  with nc moves have "stepsLeft ?s + 1 = stepsLeft s"
    by (intro stepsLeft_step)
  with Suc.prems(3) have left: "stepsLeft ?s = n" by simp
  from Suc.prems(2) have some: "workers ?s \<noteq> []"
    using workerStep_length [of ext p prefixRegex i s] by (metis length_0_conv)
  from Suc.IH [OF acc some left] obtain sched where
    "effective ext p prefixRegex sched ?s"
    "quiescent ext p prefixRegex (runPool ext p prefixRegex sched ?s)"
    by blast
  with moves have "effective ext p prefixRegex (i # sched) s
      \<and> quiescent ext p prefixRegex (runPool ext p prefixRegex (i # sched) s)"
    by (simp add: runPool_Cons)
  then show ?case by blast
qed

lemma stepsLeft_start:
  "stepsLeft (ProcessLines p input cl w) =
     2 * length input + (if cl then nat (NumParsers (conf p)) else 0)"
  by (simp add: stepsLeft_def ProcessLines_def owed_def sum_list_replicate)

lemma runPool_closed:
  "closed (runPool ext p prefixRegex sched s) = closed s"
proof (induction sched arbitrary: s)
  case Nil
  then show ?case by (simp add: runPool_Nil)
next
  case (Cons i sched)
  have "closed (workerStep ext p prefixRegex i s) = closed s"
    by (simp add: workerStep_def split: worker.splits list.splits exec.splits)
  with Cons.IH show ?case by (simp add: runPool_Cons)
qed

lemma runPool_workers_length:
  "length (workers (runPool ext p prefixRegex sched s)) = length (workers s)"
  by (induction sched arbitrary: s) (simp_all add: runPool_Nil runPool_Cons workerStep_length)

lemma quiescent_all_sent:
  assumes acc: "accounted ev input w0 s"
    and some: "workers s \<noteq> []"
    and q: "quiescent ext p prefixRegex s"
  shows "mset (sent (out s)) = mset (sent w0) + image_mset ev (mset input)
       \<and> length (sent (out s)) = length (sent w0) + length input
       \<and> reported (out s) = reported w0"
proof -
  from acc have nc: "\<not> crashed s"
    and dn: "Done \<in> set (workers s) \<longrightarrow> chan s = [] \<and> closed s"
    and ev: "mset (sent (out s)) + image_mset ev (pending s) =
      mset (sent w0) + image_mset ev (mset input)"
    and rep: "reported (out s) = reported w0"
    by (simp_all add: accounted_def)
  from q have "stepsLeft s = 0"
    by (simp add: quiescent_stepsLeft [OF nc dn some])
  then have "pending s = {#}" by (rule stepsLeft_zero_pending)
  with ev have m: "mset (sent (out s)) = mset (sent w0) + image_mset ev (mset input)"
    by simp
  then have "size (mset (sent (out s))) = size (mset (sent w0) + image_mset ev (mset input))"
    by simp
  then have "length (sent (out s)) = length (sent w0) + length input"
    by simp
  with m rep show ?thesis by simp
qed

text \<open>
  C8. Take a pool of at least one goroutine (so also of more than one) and any number of
  input lines (so also more lines than goroutines), each of which is handled by sending
  its event. Whatever the schedule, once no goroutine can move, and so once
  \<open>ProcessLines\<close> has returned, the events sent are the events of the input lines, each as
  often as its line occurs: none is lost and none is sent twice, there are exactly as many
  new events as lines, and nothing has been reported. That state is always reached: a
  schedule of moves only cannot be longer than two steps for each line and, when the
  channel is closed, one for each goroutine; it has that length exactly when no goroutine
  can move any more; and such a schedule exists, after which, when the channel is closed,
  \<open>ProcessLines\<close> has returned. The sink is taken to accept every event it is offered.
  The order of the events depends on the schedule, as the instance below shows.
\<close>

theorem pool_emits_every_line_once:
  assumes ok: "\<forall>line \<in> set input. \<forall>w.
      handleLine ext p prefixRegex line w = Returns (sendTo (ev line) w)"
    and n: "0 < NumParsers (conf p)"
  shows "(quiescent ext p prefixRegex (runPool ext p prefixRegex sched (ProcessLines p input cl w))
          \<longrightarrow>
            mset (sent (out (runPool ext p prefixRegex sched (ProcessLines p input cl w)))) =
              mset (sent w) + image_mset ev (mset input)
            \<and> length (sent (out (runPool ext p prefixRegex sched (ProcessLines p input cl w)))) =
                length (sent w) + length input
            \<and> reported (out (runPool ext p prefixRegex sched (ProcessLines p input cl w))) =
                reported w)
       \<and> (returned (runPool ext p prefixRegex sched (ProcessLines p input cl w)) \<longrightarrow>
            quiescent ext p prefixRegex
              (runPool ext p prefixRegex sched (ProcessLines p input cl w)))
       \<and> (effective ext p prefixRegex sched (ProcessLines p input cl w) \<longrightarrow>
            length sched \<le> 2 * length input + (if cl then nat (NumParsers (conf p)) else 0)
            \<and> (quiescent ext p prefixRegex
                  (runPool ext p prefixRegex sched (ProcessLines p input cl w))
                \<longleftrightarrow> length sched =
                      2 * length input + (if cl then nat (NumParsers (conf p)) else 0)))
       \<and> (\<exists>sched'. effective ext p prefixRegex sched' (ProcessLines p input cl w)
            \<and> quiescent ext p prefixRegex
                (runPool ext p prefixRegex sched' (ProcessLines p input cl w))
            \<and> (cl \<longrightarrow> returned (runPool ext p prefixRegex sched' (ProcessLines p input cl w))))"
proof -
  let ?s0 = "ProcessLines p input cl w"
  let ?run = "\<lambda>sched. runPool ext p prefixRegex sched ?s0"
  let ?total = "2 * length input + (if cl then nat (NumParsers (conf p)) else 0)"
  have acc0: "accounted ev input w ?s0"
    by (rule accounted_start)
  have acc: "accounted ev input w (?run sched)" for sched
    by (rule accounted_run [OF acc0 ok])
  from n have some0: "workers ?s0 \<noteq> []"
    by (simp add: ProcessLines_def)
  have some: "workers (?run sched) \<noteq> []" for sched
    using some0 runPool_workers_length [of ext p prefixRegex sched ?s0]
    by (metis length_0_conv)
  have nc: "\<not> crashed (?run sched)"
    and dn: "Done \<in> set (workers (?run sched)) \<longrightarrow> chan (?run sched) = [] \<and> closed (?run sched)"
    for sched
    using acc [of sched] by (simp_all add: accounted_def)
  have a: "quiescent ext p prefixRegex (?run sched) \<longrightarrow>
      mset (sent (out (?run sched))) = mset (sent w) + image_mset ev (mset input)
      \<and> length (sent (out (?run sched))) = length (sent w) + length input
      \<and> reported (out (?run sched)) = reported w"
    using quiescent_all_sent [OF acc some] by blast
  have b: "returned (?run sched) \<longrightarrow> quiescent ext p prefixRegex (?run sched)"
    by (simp add: returned_quiescent)
  have c: "effective ext p prefixRegex sched ?s0 \<longrightarrow>
      length sched \<le> ?total
      \<and> (quiescent ext p prefixRegex (?run sched) \<longleftrightarrow> length sched = ?total)"
  proof
    assume "effective ext p prefixRegex sched ?s0"
    from effective_steps [OF ok acc0 this]
    have "length sched + stepsLeft (?run sched) = ?total"
      by (simp only: stepsLeft_start)
    then show "length sched \<le> ?total
        \<and> (quiescent ext p prefixRegex (?run sched) \<longleftrightarrow> length sched = ?total)"
      by (auto simp: quiescent_stepsLeft [OF nc dn some])
  qed
  have d: "\<exists>sched'. effective ext p prefixRegex sched' ?s0
      \<and> quiescent ext p prefixRegex (?run sched')
      \<and> (cl \<longrightarrow> returned (?run sched'))"
  proof -
    from reaches_quiescence [OF ok acc0 some0 refl] obtain sched' where
      e: "effective ext p prefixRegex sched' ?s0"
      and q: "quiescent ext p prefixRegex (?run sched')"
      by blast
    have "cl \<longrightarrow> returned (?run sched')"
    proof
      assume cl
      then have "closed (?run sched')"
        by (simp add: runPool_closed ProcessLines_def)
      with nc q show "returned (?run sched')"
        by (intro quiescent_closed_returned)
    qed
    with e q show ?thesis by blast
  qed
  from a b c d show ?thesis by blast
qed

lemma demoLines_accepted:
  "\<forall>line \<in> set demoLines. \<forall>w.
     handleLine demoExternals demoParser None line w = Returns (sendTo (demoEvent line) w)"
  by (simp add: demoLines_def handleLine_def parseAndSend_def demoParser_def demoEvent_def
      demoExternals_def demoUnmarshal_def stripPrefix_def KeyValLineParser_def
      KeyValLineParser_ParseLine_def HandleLogfmt_def ParseBool_def AtoiDigits_def isDigit_def
      digitsValue_def intSize_def mergePrefixFields_def demoOptions_def)

theorem pool_emits_every_line_once_witness:
  "0 < NumParsers (conf demoParser)
   \<and> nat (NumParsers (conf demoParser)) < length demoLines
   \<and> handleLine demoExternals demoParser None ''up=1 down=0'' emptyWorld =
       Returns (sendTo (demoEvent ''up=1 down=0'') emptyWorld)
   \<and> returned (runPool demoExternals demoParser None [0, 0, 0, 0, 0, 0, 0, 1]
        (ProcessLines demoParser demoLines True emptyWorld))
   \<and> sent (out (runPool demoExternals demoParser None [0, 0, 0, 0, 0, 0, 0, 1]
        (ProcessLines demoParser demoLines True emptyWorld))) =
       [demoEvent ''status=200 method=GET duration=1.5 cached=true'',
        demoEvent ''up=1 down=0'', demoEvent ''host=db7 status=200'']
   \<and> returned (runPool demoExternals demoParser None [0, 1, 1, 0, 0, 0, 0, 1]
        (ProcessLines demoParser demoLines True emptyWorld))
   \<and> sent (out (runPool demoExternals demoParser None [0, 1, 1, 0, 0, 0, 0, 1]
        (ProcessLines demoParser demoLines True emptyWorld))) =
       [demoEvent ''up=1 down=0'',
        demoEvent ''status=200 method=GET duration=1.5 cached=true'',
        demoEvent ''host=db7 status=200'']
   \<and> length (sent (out (runPool demoExternals demoParser None [0, 1, 1, 0, 0, 0, 0, 1]
        (ProcessLines demoParser demoLines True emptyWorld)))) = length demoLines
   \<and> mset (sent (out (runPool demoExternals demoParser None [0, 1, 1, 0, 0, 0, 0, 1]
        (ProcessLines demoParser demoLines True emptyWorld)))) =
       image_mset demoEvent (mset demoLines)"
proof -
  have ok: "\<forall>line \<in> set demoLines. \<forall>w.
      handleLine demoExternals demoParser None line w = Returns (sendTo (demoEvent line) w)"
    by (rule demoLines_accepted)
  then have h:
    "handleLine demoExternals demoParser None
       ''status=200 method=GET duration=1.5 cached=true'' w =
     Returns (sendTo (demoEvent ''status=200 method=GET duration=1.5 cached=true'') w)"
    "handleLine demoExternals demoParser None ''up=1 down=0'' w =
     Returns (sendTo (demoEvent ''up=1 down=0'') w)"
    "handleLine demoExternals demoParser None ''host=db7 status=200'' w =
     Returns (sendTo (demoEvent ''host=db7 status=200'') w)" for w
    by (simp_all add: demoLines_def)
  have n: "0 < NumParsers (conf demoParser)"
    by (simp add: demoParser_def demoOptions_def)
  have two: "nat (NumParsers (conf demoParser)) = Suc (Suc 0)"
    by (simp add: demoParser_def demoOptions_def)
  have runA: "runPool demoExternals demoParser None [0, 0, 0, 0, 0, 0, 0, 1]
        (ProcessLines demoParser demoLines True emptyWorld) =
      \<lparr>chan = [], closed = True, workers = [Done, Done],
       out = \<lparr>reported = [],
              sent = [demoEvent ''status=200 method=GET duration=1.5 cached=true'',
                      demoEvent ''up=1 down=0'', demoEvent ''host=db7 status=200'']\<rparr>,
       crashed = False\<rparr>"
    by (simp add: runPool_def workerStep_def ProcessLines_def two demoLines_def h sendTo_def
        emptyWorld_def)
  have runB: "runPool demoExternals demoParser None [0, 1, 1, 0, 0, 0, 0, 1]
        (ProcessLines demoParser demoLines True emptyWorld) =
      \<lparr>chan = [], closed = True, workers = [Done, Done],
       out = \<lparr>reported = [],
              sent = [demoEvent ''up=1 down=0'',
                      demoEvent ''status=200 method=GET duration=1.5 cached=true'',
                      demoEvent ''host=db7 status=200'']\<rparr>,
       crashed = False\<rparr>"
    by (simp add: runPool_def workerStep_def ProcessLines_def two demoLines_def h sendTo_def
        emptyWorld_def)
  from pool_emits_every_line_once [OF ok n, of "[0, 1, 1, 0, 0, 0, 0, 1]" True emptyWorld]
  have "returned (runPool demoExternals demoParser None [0, 1, 1, 0, 0, 0, 0, 1]
          (ProcessLines demoParser demoLines True emptyWorld)) \<longrightarrow>
        mset (sent (out (runPool demoExternals demoParser None [0, 1, 1, 0, 0, 0, 0, 1]
          (ProcessLines demoParser demoLines True emptyWorld)))) =
          mset (sent emptyWorld) + image_mset demoEvent (mset demoLines)
        \<and> length (sent (out (runPool demoExternals demoParser None [0, 1, 1, 0, 0, 0, 0, 1]
          (ProcessLines demoParser demoLines True emptyWorld)))) =
          length (sent emptyWorld) + length demoLines"
    by blast
  moreover have "returned (runPool demoExternals demoParser None [0, 1, 1, 0, 0, 0, 0, 1]
          (ProcessLines demoParser demoLines True emptyWorld))"
    using runB by (simp add: returned_def)
  ultimately have counted: "mset (sent (out (runPool demoExternals demoParser None [0, 1, 1, 0, 0, 0, 0, 1]
          (ProcessLines demoParser demoLines True emptyWorld)))) =
          image_mset demoEvent (mset demoLines)
        \<and> length (sent (out (runPool demoExternals demoParser None [0, 1, 1, 0, 0, 0, 0, 1]
          (ProcessLines demoParser demoLines True emptyWorld)))) = length demoLines"
    by (simp add: emptyWorld_def)
  have len: "nat (NumParsers (conf demoParser)) < length demoLines"
    by (simp add: two demoLines_def)
  from n len h(2) [of emptyWorld] counted runA runB show ?thesis
    by (simp add: returned_def)
qed

end
